theory Spec2Isabelle
  imports Main "HOL-Library.AList" "HOL-Library.Multiset" "HOL-Library.Code_Target_Nat"
begin

text \<open>
  A model of \<open>analyzeEpub\<close>, the function of the \<open>epubProcessor\<close> service that reads an
  ePub archive, extracts the text of its chapters in reading order and scores the text
  against the keyword tables of genres and tags. The archive, the XML and HTML parsers,
  the \<open>URL\<close> constructor and the parts of the JavaScript engine that the language
  specification leaves to the implementation are given to the model as data and
  functions; the functions of the ECMAScript library that decide the results (regular
  expression matching, \<open>String.prototype.trim\<close> and \<open>includes\<close>, \<open>decodeURIComponent\<close>,
  property access on objects created by \<^verbatim>\<open>{}\<close>, \<open>Object.entries\<close>,
  \<open>Array.prototype.sort\<close>) are modelled after the language specification. The keyword
  tables are parameters.
\<close>

section \<open>Strings\<close>

text \<open>
  A JavaScript string is a sequence of UTF-16 code units. A code unit is modelled as a
  natural number; the code units of a string are below \<open>65536\<close>, and no definition
  depends on that bound. \<open>str\<close> gives the code units of a literal of characters below
  \<open>256\<close>.
\<close>

type_synonym code_unit = nat

type_synonym js_string = "code_unit list"

definition str :: "string \<Rightarrow> js_string" where
  "str s = map of_char s"

text \<open>\<open>String.prototype.includes\<close>: the argument occurs as a contiguous substring.\<close>

fun str_includes :: "js_string \<Rightarrow> js_string \<Rightarrow> bool" where
  "str_includes [] needle = (needle = [])"
| "str_includes (c # cs) needle =
     (take (length needle) (c # cs) = needle \<or> str_includes cs needle)"

text \<open>
  The code units that \<open>String.prototype.trim\<close> strips, \<open>WhiteSpace\<close> and
  \<open>LineTerminator\<close> of the language specification: TAB, LF, VT, FF, CR, SP, the
  no-break space \<open>U+00A0\<close>, the other space separators \<open>U+1680\<close>, \<open>U+2000\<close> to
  \<open>U+200A\<close>, \<open>U+202F\<close>, \<open>U+205F\<close> and \<open>U+3000\<close>, the line and paragraph separators
  \<open>U+2028\<close> and \<open>U+2029\<close>, and the byte order mark \<open>U+FEFF\<close>.
\<close>

definition isWhiteSpace :: "code_unit \<Rightarrow> bool" where
  "isWhiteSpace c \<longleftrightarrow>
     (0x09 \<le> c \<and> c \<le> 0x0D) \<or> c = 0x20 \<or> c = 0xA0 \<or> c = 0x1680
     \<or> (0x2000 \<le> c \<and> c \<le> 0x200A) \<or> c = 0x2028 \<or> c = 0x2029 \<or> c = 0x202F
     \<or> c = 0x205F \<or> c = 0x3000 \<or> c = 0xFEFF"

definition trim :: "js_string \<Rightarrow> js_string" where
  "trim s = rev (dropWhile isWhiteSpace (rev (dropWhile isWhiteSpace s)))"

section \<open>What the browser and the archive library provide\<close>

text \<open>
  The exceptions that \<open>analyzeEpub\<close> can raise once the archive is loaded (the model
  starts from the loaded archive, whose entries can be read): its own four
  \<^verbatim>\<open>throw new Error(...)\<close>, the \<open>TypeError\<close> of the \<open>URL\<close> constructor and the
  \<open>URIError\<close> of \<open>decodeURIComponent\<close>.
\<close>

datatype error =
    ContainerNotFound
  | RootfilePathNotFound
  | OpfNotFound js_string
  | NoTextContent
  | UrlTypeError
  | URIError

text \<open>
  An archive loaded by \<open>JSZip\<close> (the variable \<open>zip\<close> of the source, here
  \<open>zipArchive\<close>): \<open>zip.file(path)\<close> followed by \<open>async('string')\<close> gives the text of
  the entry of exactly that path, and \<open>null\<close> when there is none.
\<close>

type_synonym archive = "js_string \<rightharpoonup> js_string"

text \<open>
  A parsed XML document, as far as \<open>analyzeEpub\<close> queries it. \<open>DOMParser\<close> does not
  throw on input that is not well-formed: it returns a document that holds a
  \<open>parsererror\<close> element, and the queries run on that document as on any other.
\<close>

record manifest_item =
  item_id :: "js_string option"
  item_href :: "js_string option"
  item_media_type :: "js_string option"

record xml_document =
  parsererror :: bool
  rootfile_full_paths :: "js_string option list"
  manifest_items :: "manifest_item list"
  spine_idrefs :: "js_string option list"

text \<open>
  The fields of \<open>xml_document\<close> are: whether the parser reported an error; the
  \<open>full-path\<close> attribute of every element that \<^verbatim>\<open>querySelectorAll('rootfile')\<close>
  selects, in document order (\<open>querySelector\<close> returns the first); the attributes of
  the elements selected by \<^verbatim>\<open>'manifest item'\<close>; and the \<open>idref\<close> attribute of those
  selected by \<^verbatim>\<open>'spine itemref'\<close>. A missing attribute is \<open>None\<close>.
\<close>

text \<open>
  The \<open>count\<close> of an entry of the aggregate hit list. Step 6 computes it by
  \<^verbatim>\<open>(allHitsMap[keyword] || 0) + count\<close> on an object created by \<^verbatim>\<open>{}\<close>, so it is
  a number, or, when the keyword names a member that such an object inherits from
  \<open>Object.prototype\<close>, a string: \<open>MemberText name counts\<close> stands for the string made of
  the text of the member \<open>name\<close> (\<open>String(Object.prototype[name])\<close>) followed by the
  decimal numerals of \<open>counts\<close>, such as
  \<^verbatim>\<open>'function Object() { [native code] }1'\<close> for \<open>MemberText constructor [1]\<close>. The
  text of a member starts with \<^verbatim>\<open>function\<close> or is \<^verbatim>\<open>[object Object]\<close>, so such a
  string is not empty and its value as a number is \<open>NaN\<close>.
\<close>

datatype hit_count = Num nat | MemberText js_string "nat list"

record keyword_hit =
  keyword :: js_string
  count :: hit_count

text \<open>
  The browser is a parameter of the model:
  \<^item> \<open>parseXml\<close> is \<^verbatim>\<open>new DOMParser().parseFromString(str, 'application/xml')\<close>;
  \<^item> \<open>htmlBodyText\<close> is \<open>doc.body.textContent\<close> of the document parsed as
    \<^verbatim>\<open>'text/html'\<close>, and \<open>None\<close> when that raises;
  \<^item> \<open>urlPathname opfPath href\<close> is the \<open>pathname\<close> of
    \<^verbatim>\<open>new URL(href, new URL(opfPath, 'file:///'))\<close>, and \<open>None\<close> when a constructor
    raises its \<open>TypeError\<close>;
  \<^item> \<open>toUppercase\<close> is the case conversion of the engine's version of Unicode, used
    by regular expressions with the flag \<open>i\<close>: the upper-case form of a code unit from
    \<open>128\<close> on, as a string (the conversion of the code units below \<open>128\<close> is part of the
    model);
  \<^item> \<open>nativeFunctionString name\<close> is the text that \<open>String\<close> gives for the built-in
    function \<open>Object.prototype[name]\<close>, which is implementation-defined;
  \<^item> \<open>sortInconsistent\<close> is what \<open>Array.prototype.sort\<close> makes of the aggregate hit
    list when the comparison function yields \<open>NaN\<close>: the comparison is then not
    consistent, and the order of the result is implementation-defined.
\<close>

record browser =
  parseXml :: "js_string \<Rightarrow> xml_document"
  htmlBodyText :: "js_string \<Rightarrow> js_string option"
  urlPathname :: "js_string \<Rightarrow> js_string \<Rightarrow> js_string option"
  toUppercase :: "code_unit \<Rightarrow> js_string"
  nativeFunctionString :: "js_string \<Rightarrow> js_string"
  sortInconsistent :: "keyword_hit list \<Rightarrow> keyword_hit list"

definition getHtmlTextContent :: "browser \<Rightarrow> js_string \<Rightarrow> js_string" where
  "getHtmlTextContent env htmlString =
     (case htmlBodyText env htmlString of None \<Rightarrow> [] | Some t \<Rightarrow> t)"

section \<open>Regular expressions built from keywords\<close>

subsection \<open>escapeRegex\<close>

text \<open>
  \<^verbatim>\<open>str.replace(/[.+?^${}()|[\]\\]/g, '\\$&').replace(/\*/g, '\\w')\<close>:
  the first pass puts a backslash before each of the listed characters, the second
  turns every asterisk into backslash-w.
\<close>

abbreviation backslash :: code_unit where "backslash \<equiv> 0x5C"

abbreviation asterisk :: code_unit where "asterisk \<equiv> 0x2A"

abbreviation letter_b :: code_unit where "letter_b \<equiv> 0x62"

abbreviation letter_w :: code_unit where "letter_w \<equiv> 0x77"

definition isEscaped :: "code_unit \<Rightarrow> bool" where
  "isEscaped c \<longleftrightarrow> c \<in> set (str ''.+?^${}()|[]'') \<or> c = backslash"

definition escapeSpecial :: "js_string \<Rightarrow> js_string" where
  "escapeSpecial s = concat (map (\<lambda>c. if isEscaped c then [backslash, c] else [c]) s)"

definition replaceStar :: "js_string \<Rightarrow> js_string" where
  "replaceStar s = concat (map (\<lambda>c. if c = asterisk then [backslash, letter_w] else [c]) s)"

definition escapeRegex :: "js_string \<Rightarrow> js_string" where
  "escapeRegex s = replaceStar (escapeSpecial s)"

subsection \<open>The pattern language reached by the scorer\<close>

text \<open>
  The scorer builds \<^verbatim>\<open>new RegExp('\\b' + escapeRegex(keyword), 'gi')\<close>. The terms such a
  pattern can hold are the word-boundary assertion, the word-character class and single
  pattern characters. \<open>parsePattern\<close> reads this fragment of the ECMAScript pattern
  grammar: an unescaped syntax character, or an escape other than backslash-b,
  backslash-w and an escaped syntax character, is outside the fragment (\<open>None\<close>).
\<close>

datatype rx_term = WordBoundary | WordClass | PatternChar code_unit

definition isSyntaxChar :: "code_unit \<Rightarrow> bool" where
  "isSyntaxChar c \<longleftrightarrow> c \<in> set (str ''^$.*+?()[]{}|'') \<or> c = backslash"

fun parsePattern :: "js_string \<Rightarrow> rx_term list option" where
  "parsePattern [] = Some []"
| "parsePattern [c] = (if isSyntaxChar c then None else Some [PatternChar c])"
| "parsePattern (c # d # cs) =
     (if c = backslash then
        (if d = letter_b then map_option (Cons WordBoundary) (parsePattern cs)
         else if d = letter_w then map_option (Cons WordClass) (parsePattern cs)
         else if isSyntaxChar d then map_option (Cons (PatternChar d)) (parsePattern cs)
         else None)
      else if isSyntaxChar c then None
      else map_option (Cons (PatternChar c)) (parsePattern (d # cs)))"

subsection \<open>Matching\<close>

text \<open>
  The word characters of \<^verbatim>\<open>\w\<close> and \<^verbatim>\<open>\b\<close> without the unicode flag:
  \<^verbatim>\<open>[A-Za-z0-9_]\<close>.
\<close>

definition isWordChar :: "code_unit \<Rightarrow> bool" where
  "isWordChar c \<longleftrightarrow>
     (0x61 \<le> c \<and> c \<le> 0x7A) \<or> (0x41 \<le> c \<and> c \<le> 0x5A) \<or> (0x30 \<le> c \<and> c \<le> 0x39) \<or> c = 0x5F"

text \<open>
  \<open>Canonicalize\<close> under the flag \<open>i\<close> without the flag \<open>u\<close>: a code unit is replaced
  by its upper-case form when that form is a single code unit, except that a code unit
  from \<open>128\<close> on is never replaced by one below \<open>128\<close>. Below \<open>128\<close> the upper-case
  form is that of the letters \<open>a\<close> to \<open>z\<close>; from \<open>128\<close> on it is the browser's.
\<close>

definition canonicalize :: "browser \<Rightarrow> code_unit \<Rightarrow> code_unit" where
  "canonicalize env ch =
     (if ch < 128 then (if 0x61 \<le> ch \<and> ch \<le> 0x7A then ch - 32 else ch)
      else (case toUppercase env ch of
              [cu] \<Rightarrow> if cu < 128 then ch else cu
            | _ \<Rightarrow> ch))"

text \<open>
  \<open>IsWordChar(e)\<close> of the assertion: false before the first and after the last
  character. \<open>wordBefore s i\<close> looks at index \<open>i - 1\<close>, \<open>wordAt s i\<close> at index \<open>i\<close>.
\<close>

definition wordBefore :: "js_string \<Rightarrow> nat \<Rightarrow> bool" where
  "wordBefore s i \<longleftrightarrow> 0 < i \<and> i \<le> length s \<and> isWordChar (s ! (i - 1))"

definition wordAt :: "js_string \<Rightarrow> nat \<Rightarrow> bool" where
  "wordAt s i \<longleftrightarrow> i < length s \<and> isWordChar (s ! i)"

text \<open>
  Matching a sequence of terms at index \<open>i\<close> of the input: the end index of the match,
  or \<open>None\<close>. No term of the fragment offers a choice, so there is no backtracking. A
  pattern character matches a code unit with the same canonical form. The class
  \<^verbatim>\<open>\w\<close> is compared by canonical forms too; since \<open>Canonicalize\<close> maps word
  characters to word characters and nothing else to one, it matches the word
  characters.
\<close>

fun matchTerms :: "browser \<Rightarrow> rx_term list \<Rightarrow> js_string \<Rightarrow> nat \<Rightarrow> nat option" where
  "matchTerms env [] s i = Some i"
| "matchTerms env (WordBoundary # ts) s i =
     (if wordBefore s i \<noteq> wordAt s i then matchTerms env ts s i else None)"
| "matchTerms env (WordClass # ts) s i =
     (if i < length s \<and> isWordChar (s ! i) then matchTerms env ts s (Suc i) else None)"
| "matchTerms env (PatternChar c # ts) s i =
     (if i < length s \<and> canonicalize env (s ! i) = canonicalize env c
      then matchTerms env ts s (Suc i) else None)"

text \<open>
  \<^verbatim>\<open>text.match(regex)\<close> with the global flag: the search starts at index 0, takes the
  leftmost index at or after \<open>lastIndex\<close> where the pattern matches, and continues
  from the end of that match (one index further after an empty match) until no index up
  to the length of the input matches. The result lists the start index of each match.
  A match never ends before its start, so \<open>e \<le> i\<close> below is the case \<open>e = i\<close> of the
  empty match.
\<close>

function matchAllFrom :: "browser \<Rightarrow> rx_term list \<Rightarrow> js_string \<Rightarrow> nat \<Rightarrow> nat list" where
  "matchAllFrom env ts s i =
     (if length s < i then []
      else (case matchTerms env ts s i of
              None \<Rightarrow> matchAllFrom env ts s (Suc i)
            | Some e \<Rightarrow> i # matchAllFrom env ts s (if e \<le> i then Suc i else e)))"
  by pat_completeness auto
termination
  by (relation "measure (\<lambda>(env, ts, s, i). Suc (length s) - i)") auto

declare matchAllFrom.simps [simp del]

text \<open>
  The keyword loop body up to \<^verbatim>\<open>const count = matches ? matches.length : 0\<close>.
  \<open>keywordMatches\<close> is the array returned by \<open>match\<close> (as start indices; empty for
  \<open>null\<close>).
\<close>

definition keywordPattern :: "js_string \<Rightarrow> js_string" where
  "keywordPattern kw = [backslash, letter_b] @ escapeRegex kw"

definition keywordMatches :: "browser \<Rightarrow> js_string \<Rightarrow> js_string \<Rightarrow> nat list" where
  "keywordMatches env fullTextContent kw =
     (case parsePattern (keywordPattern kw) of
        None \<Rightarrow> []
      | Some ts \<Rightarrow> matchAllFrom env ts fullTextContent 0)"

definition keywordCount :: "browser \<Rightarrow> js_string \<Rightarrow> js_string \<Rightarrow> nat" where
  "keywordCount env fullTextContent kw = length (keywordMatches env fullTextContent kw)"

section \<open>Objects used as dictionaries\<close>

text \<open>
  \<open>hits\<close>, \<open>allHitsMap\<close> and \<open>manifestItems\<close> are objects created by \<^verbatim>\<open>{}\<close> and used
  as dictionaries from strings to numbers or strings. Such an object is modelled by the
  list of its own properties in the order of their creation; its prototype is
  \<open>Object.prototype\<close>, whose members are listed by \<open>objectPrototypeNames\<close>: the
  accessor \<^verbatim>\<open>__proto__\<close> and eleven built-in functions. (The model takes
  \<open>Object.prototype\<close> as the language defines it, with no member added by other code
  of the page.)
\<close>

type_synonym 'v js_object = "(js_string \<times> 'v) list"

definition objectPrototypeNames :: "js_string list" where
  "objectPrototypeNames =
     map str [''constructor'', ''__defineGetter__'', ''__defineSetter__'', ''hasOwnProperty'',
              ''__lookupGetter__'', ''__lookupSetter__'', ''isPrototypeOf'',
              ''propertyIsEnumerable'', ''toString'', ''valueOf'', ''__proto__'',
              ''toLocaleString'']"

text \<open>
  \<^verbatim>\<open>obj[k] = v\<close> for a number or string \<open>v\<close>. For the key \<^verbatim>\<open>__proto__\<close> the
  assignment calls the setter of \<open>Object.prototype\<close>, which ignores a value that is
  neither an object nor \<open>null\<close>: no property is created. Every other key becomes or
  stays an own property (the functions of \<open>Object.prototype\<close> are writable, so a key of
  their name is created as any other); an existing key keeps its place and a new key
  goes last.
\<close>

definition objSet :: "js_string \<Rightarrow> 'v \<Rightarrow> 'v js_object \<Rightarrow> 'v js_object" where
  "objSet k v obj = (if k = str ''__proto__'' then obj else AList.update k v obj)"

text \<open>
  \<^verbatim>\<open>obj[k]\<close>: the value of the own property \<open>k\<close>; without one, the member \<open>k\<close> of
  \<open>Object.prototype\<close> when there is one (for \<^verbatim>\<open>__proto__\<close> the getter returns
  \<open>Object.prototype\<close> itself); and \<open>undefined\<close> otherwise. An inherited member is an
  object, so it is truthy.
\<close>

datatype 'v property = Undefined | Own 'v | Inherited js_string

definition objGet :: "'v js_object \<Rightarrow> js_string \<Rightarrow> 'v property" where
  "objGet obj k =
     (case map_of obj k of
        Some v \<Rightarrow> Own v
      | None \<Rightarrow> if k \<in> set objectPrototypeNames then Inherited k else Undefined)"

text \<open>
  \<open>String(Object.prototype[name])\<close> for a member \<open>name\<close>: \<^verbatim>\<open>[object Object]\<close> for
  \<open>Object.prototype\<close> itself, and the browser's text for a built-in function.
\<close>

definition prototypeMemberString :: "browser \<Rightarrow> js_string \<Rightarrow> js_string" where
  "prototypeMemberString env name =
     (if name = str ''__proto__'' then str ''[object Object]'' else nativeFunctionString env name)"

text \<open>
  \<open>Object.entries\<close> enumerates the own properties whose key is an array index (the
  canonical decimal numeral of an integer below \<open>2^32 - 1\<close>) first, in ascending numeric
  order, and then the other keys in the order of their creation.
\<close>

definition isDigit :: "code_unit \<Rightarrow> bool" where
  "isDigit c \<longleftrightarrow> 0x30 \<le> c \<and> c \<le> 0x39"

definition decimalValue :: "js_string \<Rightarrow> nat" where
  "decimalValue k = foldl (\<lambda>n c. 10 * n + (c - 0x30)) 0 k"

definition arrayIndex :: "js_string \<Rightarrow> nat option" where
  "arrayIndex k =
     (if k \<noteq> [] \<and> list_all isDigit k \<and> (k = str ''0'' \<or> hd k \<noteq> 0x30)
         \<and> decimalValue k < 4294967295
      then Some (decimalValue k) else None)"

definition objectEntries :: "'v js_object \<Rightarrow> (js_string \<times> 'v) list" where
  "objectEntries obj =
     sort_key (\<lambda>p. the (arrayIndex (fst p))) (filter (\<lambda>p. arrayIndex (fst p) \<noteq> None) obj)
     @ filter (\<lambda>p. arrayIndex (fst p) = None) obj"

section \<open>Sorting\<close>

text \<open>
  \<open>Array.prototype.sort\<close> with a comparison function is stable, and with a consistent
  comparison every stable sort returns the same array. It is modelled by insertion from
  the right: an element goes before the first element it does not compare greater than.
\<close>

fun insertSorted :: "('a \<Rightarrow> 'a \<Rightarrow> int) \<Rightarrow> 'a \<Rightarrow> 'a list \<Rightarrow> 'a list" where
  "insertSorted cmp x [] = [x]"
| "insertSorted cmp x (y # ys) =
     (if cmp x y \<le> 0 then x # y # ys else y # insertSorted cmp x ys)"

definition arraySort :: "('a \<Rightarrow> 'a \<Rightarrow> int) \<Rightarrow> 'a list \<Rightarrow> 'a list" where
  "arraySort cmp xs = foldr (insertSorted cmp) xs []"

section \<open>Keyword scoring (steps 4 to 7 of analyzeEpub)\<close>

text \<open>The loop over the keywords of one category, on \<open>hits\<close> and \<open>totalScore\<close>.\<close>

fun scoreKeywords ::
  "browser \<Rightarrow> js_string \<Rightarrow> js_string list \<Rightarrow> nat js_object \<times> nat \<Rightarrow> nat js_object \<times> nat" where
  "scoreKeywords env fullTextContent [] acc = acc"
| "scoreKeywords env fullTextContent (kw # keywords) (hits, totalScore) =
     (let c = keywordCount env fullTextContent kw
      in scoreKeywords env fullTextContent keywords
           (if 0 < c then (objSet kw c hits, totalScore + c) else (hits, totalScore)))"

text \<open>
  \<open>GenreResult\<close> and \<open>TagResult\<close> differ only in the name of their first field
  (\<open>genre\<close>, \<open>tag\<close>), and the two scoring loops of \<open>analyzeEpub\<close> are the same code;
  one record and one function stand for both.
\<close>

record category_result =
  category :: js_string
  score :: nat
  hits :: "nat js_object"

record analysis_result =
  genres :: "category_result list"
  tags :: "category_result list"
  allHits :: "keyword_hit list"

text \<open>
  A keyword table (\<open>GENRE_KEYWORDS\<close>, \<open>TAG_KEYWORDS\<close>) is given by the sequence of
  pairs that \<open>Object.entries\<close> enumerates for it.
\<close>

type_synonym keyword_table = "(js_string \<times> js_string list) list"

text \<open>
  The loop over the categories of a table: \<open>scored\<close> is the pair of \<open>hits\<close> and
  \<open>totalScore\<close> after the keyword loop, and a result is pushed when \<open>totalScore > 0\<close>.
\<close>

fun scoreTable :: "browser \<Rightarrow> js_string \<Rightarrow> keyword_table \<Rightarrow> category_result list" where
  "scoreTable env fullTextContent [] = []"
| "scoreTable env fullTextContent ((cat, keywords) # table) =
     (let scored = scoreKeywords env fullTextContent keywords ([], 0)
      in (if 0 < snd scored
          then [\<lparr>category = cat, score = snd scored, hits = fst scored\<rparr>] else [])
         @ scoreTable env fullTextContent table)"

text \<open>
  Step 6: \<^verbatim>\<open>allHitsMap[keyword] = (allHitsMap[keyword] || 0) + count\<close> for every entry of
  every result's \<open>hits\<close>. \<open>undefined\<close> and the number \<open>0\<close> are falsy and give \<open>0\<close>; a
  string or an inherited member is truthy, and adding a number to it appends the
  numeral of the number to its text.
\<close>

definition addHit :: "js_string \<times> nat \<Rightarrow> hit_count js_object \<Rightarrow> hit_count js_object" where
  "addHit entry allHitsMap =
     objSet (fst entry)
       (case objGet allHitsMap (fst entry) of
          Undefined \<Rightarrow> Num (snd entry)
        | Own (Num n) \<Rightarrow> Num (n + snd entry)
        | Own (MemberText name counts) \<Rightarrow> MemberText name (counts @ [snd entry])
        | Inherited name \<Rightarrow> MemberText name [snd entry])
       allHitsMap"

definition aggregateHits :: "category_result list \<Rightarrow> hit_count js_object" where
  "aggregateHits results =
     fold (\<lambda>result allHitsMap. fold addHit (objectEntries (hits result)) allHitsMap) results []"

definition byScore :: "category_result \<Rightarrow> category_result \<Rightarrow> int" where
  "byScore a b = int (score b) - int (score a)"

text \<open>
  \<^verbatim>\<open>b.count - a.count\<close>: the difference of two numbers, and \<open>NaN\<close> (\<open>None\<close>) when a
  count is a string of the kind described above.
\<close>

definition byCount :: "keyword_hit \<Rightarrow> keyword_hit \<Rightarrow> int option" where
  "byCount a b =
     (case (count b, count a) of
        (Num y, Num x) \<Rightarrow> Some (int y - int x)
      | _ \<Rightarrow> None)"

text \<open>
  The sort of the aggregate hit list. When the comparison yields a number for all
  elements of the list, it is consistent and the sort is the stable sort; otherwise the
  result is the browser's.
\<close>

definition sortByCount :: "browser \<Rightarrow> keyword_hit list \<Rightarrow> keyword_hit list" where
  "sortByCount env hitList =
     (if list_all (\<lambda>a. list_all (\<lambda>b. byCount a b \<noteq> None) hitList) hitList
      then arraySort (\<lambda>a b. the (byCount a b)) hitList
      else sortInconsistent env hitList)"

definition analyzeText ::
  "browser \<Rightarrow> js_string \<Rightarrow> keyword_table \<Rightarrow> keyword_table \<Rightarrow> analysis_result" where
  "analyzeText env fullTextContent genreTable tagTable =
     (let genreResults = scoreTable env fullTextContent genreTable;
          tagResults = scoreTable env fullTextContent tagTable;
          allHitsMap = aggregateHits (genreResults @ tagResults);
          hitList = sortByCount env
            (map (\<lambda>(k, c). \<lparr>keyword = k, count = c\<rparr>) (objectEntries allHitsMap))
      in \<lparr>genres = arraySort byScore genreResults,
          tags = arraySort byScore tagResults,
          allHits = hitList\<rparr>)"

section \<open>Reading the archive (steps 1 to 3 of analyzeEpub)\<close>

subsection \<open>decodeURIComponent\<close>

text \<open>
  \<open>Decode\<close> of ECMAScript with an empty reserved set. Every percent sign must be
  followed by two hexadecimal digits, and the octets of the escapes from \<open>0x80\<close> on must
  form well-formed UTF-8; otherwise a \<open>URIError\<close> is raised (\<open>None\<close>). A decoded code
  point is put out as its UTF-16 code units.
\<close>

abbreviation percent :: code_unit where "percent \<equiv> 0x25"

abbreviation hash :: code_unit where "hash \<equiv> 0x23"

datatype uri_token = Plain code_unit | Octet nat

definition hexValue :: "code_unit \<Rightarrow> nat option" where
  "hexValue c =
     (if 0x30 \<le> c \<and> c \<le> 0x39 then Some (c - 0x30)
      else if 0x41 \<le> c \<and> c \<le> 0x46 then Some (c - 0x37)
      else if 0x61 \<le> c \<and> c \<le> 0x66 then Some (c - 0x57)
      else None)"

fun uriTokens :: "js_string \<Rightarrow> uri_token list option" where
  "uriTokens [] = Some []"
| "uriTokens (c # cs) =
     (if c \<noteq> percent then map_option (Cons (Plain c)) (uriTokens cs)
      else (case cs of
              h # l # rest \<Rightarrow>
                (case (hexValue h, hexValue l) of
                   (Some a, Some b) \<Rightarrow> map_option (Cons (Octet (16 * a + b))) (uriTokens rest)
                 | _ \<Rightarrow> None)
            | _ \<Rightarrow> None))"

definition continuation :: "nat \<Rightarrow> bool" where
  "continuation b \<longleftrightarrow> 128 \<le> b \<and> b \<le> 191"

definition utf16Encode :: "nat \<Rightarrow> js_string" where
  "utf16Encode cp =
     (if cp < 0x10000 then [cp]
      else [0xD800 + (cp - 0x10000) div 0x400, 0xDC00 + (cp - 0x10000) mod 0x400])"

fun utf8Decode :: "uri_token list \<Rightarrow> js_string option" where
  "utf8Decode [] = Some []"
| "utf8Decode (Plain c # ts) = map_option (Cons c) (utf8Decode ts)"
| "utf8Decode (Octet b # ts) =
     (if b < 128 then map_option (Cons b) (utf8Decode ts)
      else if 194 \<le> b \<and> b \<le> 223 then
        (case ts of
           Octet b1 # ts1 \<Rightarrow>
             (if continuation b1
              then map_option (append (utf16Encode ((b - 192) * 64 + (b1 - 128))))
                     (utf8Decode ts1)
              else None)
         | _ \<Rightarrow> None)
      else if 224 \<le> b \<and> b \<le> 239 then
        (case ts of
           Octet b1 # Octet b2 # ts2 \<Rightarrow>
             (if continuation b1 \<and> continuation b2
                 \<and> (b = 224 \<longrightarrow> 160 \<le> b1) \<and> (b = 237 \<longrightarrow> b1 \<le> 159)
              then map_option
                     (append (utf16Encode ((b - 224) * 4096 + (b1 - 128) * 64 + (b2 - 128))))
                     (utf8Decode ts2)
              else None)
         | _ \<Rightarrow> None)
      else if 240 \<le> b \<and> b \<le> 244 then
        (case ts of
           Octet b1 # Octet b2 # Octet b3 # ts3 \<Rightarrow>
             (if continuation b1 \<and> continuation b2 \<and> continuation b3
                 \<and> (b = 240 \<longrightarrow> 144 \<le> b1) \<and> (b = 244 \<longrightarrow> b1 \<le> 143)
              then map_option
                     (append (utf16Encode ((b - 240) * 262144 + (b1 - 128) * 4096
                                           + (b2 - 128) * 64 + (b3 - 128))))
                     (utf8Decode ts3)
              else None)
         | _ \<Rightarrow> None)
      else None)"

definition decodeURIComponent :: "js_string \<Rightarrow> js_string option" where
  "decodeURIComponent s = (case uriTokens s of None \<Rightarrow> None | Some ts \<Rightarrow> utf8Decode ts)"

subsection \<open>Step 1: the path of the OPF file\<close>

definition truthy :: "js_string option \<Rightarrow> bool" where
  "truthy v \<longleftrightarrow> (case v of None \<Rightarrow> False | Some s \<Rightarrow> s \<noteq> [])"

definition locateOpf :: "browser \<Rightarrow> archive \<Rightarrow> error + js_string" where
  "locateOpf env zipArchive =
     (case zipArchive (str ''META-INF/container.xml'') of
        None \<Rightarrow> Inl ContainerNotFound
      | Some containerXmlStr \<Rightarrow>
          (case rootfile_full_paths (parseXml env containerXmlStr) of
             [] \<Rightarrow> Inl RootfilePathNotFound
           | fullPath # _ \<Rightarrow>
               (case fullPath of
                  None \<Rightarrow> Inl RootfilePathNotFound
                | Some opfPath \<Rightarrow>
                    if opfPath = [] then Inl RootfilePathNotFound else Inr opfPath)))"

subsection \<open>Step 2: manifest and spine\<close>

text \<open>The condition under which \<^verbatim>\<open>manifestItems[id] = href\<close> runs for an item.\<close>

definition collected :: "manifest_item \<Rightarrow> bool" where
  "collected item \<longleftrightarrow>
     truthy (item_id item) \<and> truthy (item_href item)
     \<and> (case item_media_type item of
           None \<Rightarrow> False
         | Some mediaType \<Rightarrow>
             str_includes mediaType (str ''html'') \<or> str_includes mediaType (str ''xhtml''))"

fun buildManifest :: "manifest_item list \<Rightarrow> js_string js_object \<Rightarrow> js_string js_object" where
  "buildManifest [] manifestItems = manifestItems"
| "buildManifest (item # items) manifestItems =
     buildManifest items
       (if collected item
        then objSet (the (item_id item)) (the (item_href item)) manifestItems
        else manifestItems)"

subsection \<open>Step 3: the text of the spine\<close>

text \<open>
  \<^verbatim>\<open>const chapterHref = manifestItems[idref]; if (!chapterHref) continue;\<close> and the
  conversion of \<open>chapterHref\<close> to a string by the \<open>URL\<close> constructor: \<open>None\<close> when the
  value is falsy (\<open>undefined\<close> or the empty string), and otherwise the string that the
  constructor receives, which for an inherited member is the text of the member.
\<close>

definition chapterHref :: "browser \<Rightarrow> js_string js_object \<Rightarrow> js_string \<Rightarrow> js_string option" where
  "chapterHref env manifestItems idref =
     (case objGet manifestItems idref of
        Undefined \<Rightarrow> None
      | Own href \<Rightarrow> if href = [] then None else Some href
      | Inherited name \<Rightarrow> Some (prototypeMemberString env name))"

definition chapterFilePath :: "browser \<Rightarrow> js_string \<Rightarrow> js_string \<Rightarrow> error + js_string" where
  "chapterFilePath env opfPath href =
     (case urlPathname env opfPath href of
        None \<Rightarrow> Inl UrlTypeError
      | Some pathname \<Rightarrow>
          (case decodeURIComponent (takeWhile (\<lambda>c. c \<noteq> hash) (drop 1 pathname)) of
             None \<Rightarrow> Inl URIError
           | Some path \<Rightarrow> Inr path))"

text \<open>
  The loop over \<open>spineRefs\<close>, on the state \<open>(fullTextContent, seenPaths)\<close>. An
  exception ends the loop and the run.
\<close>

fun extractSpine ::
  "browser \<Rightarrow> archive \<Rightarrow> js_string \<Rightarrow> js_string js_object \<Rightarrow> js_string option list
    \<Rightarrow> js_string \<times> js_string set \<Rightarrow> error + js_string \<times> js_string set" where
  "extractSpine env zipArchive opfPath manifestItems [] state = Inr state"
| "extractSpine env zipArchive opfPath manifestItems (idref # spineRefs) (fullTextContent, seenPaths) =
     (if \<not> truthy idref
      then extractSpine env zipArchive opfPath manifestItems spineRefs (fullTextContent, seenPaths)
      else
        (case chapterHref env manifestItems (the idref) of
           None \<Rightarrow>
             extractSpine env zipArchive opfPath manifestItems spineRefs (fullTextContent, seenPaths)
         | Some href \<Rightarrow>
             (case chapterFilePath env opfPath href of
                Inl e \<Rightarrow> Inl e
              | Inr path \<Rightarrow>
                  if path \<in> seenPaths
                  then extractSpine env zipArchive opfPath manifestItems spineRefs
                         (fullTextContent, seenPaths)
                  else
                    (case zipArchive path of
                       None \<Rightarrow>
                         extractSpine env zipArchive opfPath manifestItems spineRefs
                           (fullTextContent, insert path seenPaths)
                     | Some chapterContent \<Rightarrow>
                         extractSpine env zipArchive opfPath manifestItems spineRefs
                           (fullTextContent @ getHtmlTextContent env chapterContent @ str '' '',
                            insert path seenPaths)))))"

definition extractText ::
  "browser \<Rightarrow> archive \<Rightarrow> js_string \<Rightarrow> js_string js_object \<Rightarrow> js_string option list
    \<Rightarrow> error + js_string" where
  "extractText env zipArchive opfPath manifestItems spineRefs =
     (case extractSpine env zipArchive opfPath manifestItems spineRefs ([], {}) of
        Inl e \<Rightarrow> Inl e
      | Inr (fullTextContent, seenPaths) \<Rightarrow>
          if trim fullTextContent = [] then Inl NoTextContent else Inr fullTextContent)"

subsection \<open>analyzeEpub\<close>

definition analyzeEpub ::
  "browser \<Rightarrow> keyword_table \<Rightarrow> keyword_table \<Rightarrow> archive \<Rightarrow> error + analysis_result" where
  "analyzeEpub env genreTable tagTable zipArchive =
     (case locateOpf env zipArchive of
        Inl e \<Rightarrow> Inl e
      | Inr opfPath \<Rightarrow>
          (case zipArchive opfPath of
             None \<Rightarrow> Inl (OpfNotFound opfPath)
           | Some opfXmlStr \<Rightarrow>
               (let opfDoc = parseXml env opfXmlStr;
                    manifestItems = buildManifest (manifest_items opfDoc) [];
                    spineRefs = spine_idrefs opfDoc
                in case extractText env zipArchive opfPath manifestItems spineRefs of
                     Inl e \<Rightarrow> Inl e
                   | Inr fullTextContent \<Rightarrow>
                       Inr (analyzeText env fullTextContent genreTable tagTable))))"

section \<open>Notions used to state the properties\<close>

subsection \<open>Keyword matching\<close>

text \<open>
  The term a keyword character stands for: the asterisk for the word-character class,
  any other character for itself.
\<close>

definition termOf :: "code_unit \<Rightarrow> rx_term" where
  "termOf c = (if c = asterisk then WordClass else PatternChar c)"

text \<open>
  \<open>charMatches env k c\<close>: the text character \<open>c\<close> is accepted at the keyword
  character \<open>k\<close>, that is, it is a word character when \<open>k\<close> is the asterisk and has
  the canonical form of \<open>k\<close> otherwise. \<open>keywordAt env kw s i\<close>: the text \<open>s\<close> holds,
  from index \<open>i\<close> on, one accepted character for each character of the keyword.
\<close>

definition charMatches :: "browser \<Rightarrow> code_unit \<Rightarrow> code_unit \<Rightarrow> bool" where
  "charMatches env k c \<longleftrightarrow>
     (if k = asterisk then isWordChar c else canonicalize env c = canonicalize env k)"

definition keywordAt :: "browser \<Rightarrow> js_string \<Rightarrow> js_string \<Rightarrow> nat \<Rightarrow> bool" where
  "keywordAt env kw s i \<longleftrightarrow>
     i + length kw \<le> length s
     \<and> list_all2 (charMatches env) kw (take (length kw) (drop i s))"

text \<open>
  A word boundary is an index with a word character on exactly one side; a word start
  is an index with a word character after it and none before it.
\<close>

definition wordBoundary :: "js_string \<Rightarrow> nat \<Rightarrow> bool" where
  "wordBoundary s i \<longleftrightarrow> wordBefore s i \<noteq> wordAt s i"

definition wordStart :: "js_string \<Rightarrow> nat \<Rightarrow> bool" where
  "wordStart s i \<longleftrightarrow> wordAt s i \<and> \<not> wordBefore s i"

subsection \<open>Scoring and aggregation\<close>

text \<open>
  The count of a keyword in a category: the number of its matches when the category
  lists it, and 0 otherwise.
\<close>

definition categoryCount ::
  "browser \<Rightarrow> js_string \<Rightarrow> js_string \<times> js_string list \<Rightarrow> js_string \<Rightarrow> nat" where
  "categoryCount env fullTextContent cat kw =
     (if kw \<in> set (snd cat) then keywordCount env fullTextContent kw else 0)"

text \<open>The elements of a list in the order of their first occurrence.\<close>

fun firstOccurrences :: "'a list \<Rightarrow> 'a list" where
  "firstOccurrences [] = []"
| "firstOccurrences (x # xs) = x # filter (\<lambda>y. y \<noteq> x) (firstOccurrences xs)"

text \<open>
  The keywords in the order in which step 6 first meets them: result by result, genres
  before tags, each result's \<open>hits\<close> as \<open>Object.entries\<close> enumerates them.
\<close>

definition encountered :: "category_result list \<Rightarrow> js_string list" where
  "encountered results =
     firstOccurrences (concat (map (\<lambda>result. map fst (objectEntries (hits result))) results))"

text \<open>The order in which \<open>Object.entries\<close> enumerates keys created in the given order.\<close>

definition enumerationOrder :: "js_string list \<Rightarrow> js_string list" where
  "enumerationOrder ks =
     sort_key (\<lambda>k. the (arrayIndex k)) (filter (\<lambda>k. arrayIndex k \<noteq> None) ks)
     @ filter (\<lambda>k. arrayIndex k = None) ks"

text \<open>A category has a matched keyword: some keyword of its list occurs in the text.\<close>

definition matched :: "browser \<Rightarrow> js_string \<Rightarrow> js_string \<times> js_string list \<Rightarrow> bool" where
  "matched env fullTextContent cat \<longleftrightarrow>
     (\<exists>kw \<in> set (snd cat). 0 < keywordCount env fullTextContent kw)"

text \<open>
  The number a \<open>hits\<close> object holds for a keyword as an own property, 0 when it has no
  such property.
\<close>

definition hitCount :: "nat js_object \<Rightarrow> js_string \<Rightarrow> nat" where
  "hitCount obj kw = (case map_of obj kw of None \<Rightarrow> 0 | Some n \<Rightarrow> n)"

text \<open>
  The values of an aggregate map are all numbers; the number such a map holds for a
  keyword, 0 when it has no such own property or holds a string for it; and the number
  of a count that is a number.
\<close>

definition allNumbers :: "hit_count js_object \<Rightarrow> bool" where
  "allNumbers obj =
     list_all (\<lambda>p. case snd p of Num n \<Rightarrow> True | MemberText name counts \<Rightarrow> False) obj"

definition aggregateCount :: "hit_count js_object \<Rightarrow> js_string \<Rightarrow> nat" where
  "aggregateCount obj kw = (case map_of obj kw of Some (Num n) \<Rightarrow> n | _ \<Rightarrow> 0)"

definition numberOf :: "hit_count \<Rightarrow> nat" where
  "numberOf c = (case c of Num n \<Rightarrow> n | MemberText name counts \<Rightarrow> 0)"

text \<open>The name of the accessor of \<open>Object.prototype\<close>.\<close>

abbreviation protoName :: js_string where "protoName \<equiv> str ''__proto__''"

subsection \<open>Extraction\<close>

text \<open>
  What a spine reference resolves to: nothing when the loop skips it (no \<open>idref\<close>, or no
  manifest entry for it), and otherwise the archive path of its chapter or the
  exception raised on the way to it.
\<close>

definition resolved ::
  "browser \<Rightarrow> js_string \<Rightarrow> js_string js_object \<Rightarrow> js_string option
    \<Rightarrow> (error + js_string) option" where
  "resolved env opfPath manifestItems idref =
     (if truthy idref
      then map_option (chapterFilePath env opfPath) (chapterHref env manifestItems (the idref))
      else None)"

text \<open>
  The errors that \<open>analyzeEpub\<close> throws itself; they are the ones of the specification's
  error taxonomy that the code has (missing container, missing root file path,
  manifest not found, no extractable content).
\<close>

definition documentedError :: "error \<Rightarrow> bool" where
  "documentedError e \<longleftrightarrow>
     e = ContainerNotFound \<or> e = RootfilePathNotFound \<or> e = NoTextContent
     \<or> (\<exists>opfPath. e = OpfNotFound opfPath)"

text \<open>A string starts with two hexadecimal digits.\<close>

definition twoHexDigits :: "js_string \<Rightarrow> bool" where
  "twoHexDigits s \<longleftrightarrow>
     (case s of h # l # _ \<Rightarrow> hexValue h \<noteq> None \<and> hexValue l \<noteq> None | _ \<Rightarrow> False)"

subsection \<open>An example book\<close>

text \<open>
  The texts of a small book, and a browser for them: it parses the container text to the
  container document below and every other XML text to the package document it is
  given (the text of the OPF file is abbreviated), takes the text outside the tags as
  the text content of a chapter, and resolves a plain relative \<open>href\<close> against the
  directory of the OPF path. Its case conversion is that of Unicode for the code units
  from \<open>128\<close> to \<open>255\<close> (the letters of Latin-1; the sharp s has an upper-case form of
  two code units) and changes no code unit above; the text of a built-in function is
  of the form \<^verbatim>\<open>function valueOf() { [native code] }\<close>; and it leaves a hit list that it
  cannot compare as it is.
\<close>

definition containerXml :: js_string where
  "containerXml =
     str ''<container><rootfiles><rootfile full-path='OEBPS/content.opf'/></rootfiles></container>''"

definition containerDocument :: xml_document where
  "containerDocument =
     \<lparr>parsererror = False, rootfile_full_paths = [Some (str ''OEBPS/content.opf'')],
      manifest_items = [], spine_idrefs = []\<rparr>"

definition packageDocument :: "manifest_item list \<Rightarrow> js_string option list \<Rightarrow> xml_document" where
  "packageDocument items idrefs =
     \<lparr>parsererror = False, rootfile_full_paths = [],
      manifest_items = items, spine_idrefs = idrefs\<rparr>"

definition xhtmlItem :: "string \<Rightarrow> string \<Rightarrow> manifest_item" where
  "xhtmlItem i h =
     \<lparr>item_id = Some (str i), item_href = Some (str h),
      item_media_type = Some (str ''application/xhtml+xml'')\<rparr>"

fun textOutsideTags :: "bool \<Rightarrow> js_string \<Rightarrow> js_string" where
  "textOutsideTags inTag [] = []"
| "textOutsideTags inTag (c # cs) =
     (if c = 0x3C then textOutsideTags True cs
      else if c = 0x3E then textOutsideTags False cs
      else if inTag then textOutsideTags inTag cs
      else c # textOutsideTags inTag cs)"

definition latin1Uppercase :: "code_unit \<Rightarrow> js_string" where
  "latin1Uppercase c =
     (if 0xE0 \<le> c \<and> c \<le> 0xFE \<and> c \<noteq> 0xF7 then [c - 32]
      else if c = 0xFF then [0x178]
      else if c = 0xB5 then [0x39C]
      else if c = 0xDF then [0x53, 0x53]
      else [c])"

definition exampleBrowser :: "xml_document \<Rightarrow> browser" where
  "exampleBrowser opfDoc =
     \<lparr>parseXml = (\<lambda>xml. if xml = containerXml then containerDocument else opfDoc),
      htmlBodyText = (\<lambda>html. Some (textOutsideTags False html)),
      urlPathname = (\<lambda>opfPath href.
         Some (str ''/'' @ rev (dropWhile (\<lambda>c. c \<noteq> 0x2F) (rev opfPath)) @ href)),
      toUppercase = latin1Uppercase,
      nativeFunctionString = (\<lambda>name. str ''function '' @ name @ str ''() { [native code] }''),
      sortInconsistent = (\<lambda>hitList. hitList)\<rparr>"

definition exampleArchive :: "(string \<times> js_string) list \<Rightarrow> archive" where
  "exampleArchive chapters =
     map_of ([(str ''META-INF/container.xml'', containerXml),
              (str ''OEBPS/content.opf'', str ''<package>...</package>'')]
             @ map (\<lambda>(path, text). (str path, text)) chapters)"

definition chapterOne :: js_string where
  "chapterOne = str ''<html><body><p>The wizard cast a spell of fire.</p></body></html>''"

definition chapterTwo :: js_string where
  "chapterTwo = str ''<html><body><p>The dragon slept.</p></body></html>''"

text \<open>A browser for the examples that read no book.\<close>

definition plainBrowser :: browser where
  "plainBrowser = exampleBrowser (packageDocument [] [])"

section \<open>Keyword matching: the pattern and its matches\<close>

lemma replaceStar_append: "replaceStar (xs @ ys) = replaceStar xs @ replaceStar ys"
  by (simp add: replaceStar_def)

lemma escapeRegex_Cons:
  "escapeRegex (c # cs) =
     (if c = asterisk then [backslash, letter_w]
      else if isEscaped c then [backslash, c] else [c]) @ escapeRegex cs"
  by (simp add: escapeRegex_def escapeSpecial_def replaceStar_def isEscaped_def str_def)

lemma escapeRegex_Nil: "escapeRegex [] = []"
  by (simp add: escapeRegex_def escapeSpecial_def replaceStar_def)

lemma isSyntaxChar_iff: "isSyntaxChar c \<longleftrightarrow> isEscaped c \<or> c = asterisk"
  by (auto simp: isSyntaxChar_def isEscaped_def str_def)

lemma parsePattern_literal:
  "\<not> isSyntaxChar c \<Longrightarrow> parsePattern (c # cs) = map_option (Cons (PatternChar c)) (parsePattern cs)"
  by (cases cs) (auto simp: isSyntaxChar_def)

lemma parsePattern_escapeRegex: "parsePattern (escapeRegex kw) = Some (map termOf kw)"
proof (induction kw)
  case Nil
  show ?case by (simp add: escapeRegex_Nil)
next
  case (Cons c cs)
  show ?case
  proof (cases "c = asterisk")
    case True
    then show ?thesis using Cons by (simp add: escapeRegex_Cons termOf_def)
  next
    case False
    show ?thesis
    proof (cases "isEscaped c")
      case True
      then have "c \<noteq> letter_b" "c \<noteq> letter_w" "isSyntaxChar c"
        by (auto simp: isEscaped_def isSyntaxChar_def str_def)
      with False True Cons show ?thesis by (simp add: escapeRegex_Cons termOf_def)
    next
      case nesc: False
      with False have "\<not> isSyntaxChar c" by (simp add: isSyntaxChar_iff)
      with False nesc Cons show ?thesis
        by (simp add: escapeRegex_Cons termOf_def parsePattern_literal)
    qed
  qed
qed

lemma parsePattern_keywordPattern:
  "parsePattern (keywordPattern kw) = Some (WordBoundary # map termOf kw)"
  by (simp add: keywordPattern_def parsePattern_escapeRegex)

lemma keywordAt_Nil: "keywordAt env [] s i \<longleftrightarrow> i \<le> length s"
  by (simp add: keywordAt_def)

lemma keywordAt_Cons:
  "keywordAt env (k # ks) s i \<longleftrightarrow> i < length s \<and> charMatches env k (s ! i) \<and> keywordAt env ks s (Suc i)"
proof (cases "i < length s")
  case True
  then have "drop i s = s ! i # drop (Suc i) s" by (simp add: Cons_nth_drop_Suc)
  with True show ?thesis by (auto simp: keywordAt_def)
next
  case False
  then show ?thesis by (simp add: keywordAt_def)
qed

lemma matchTerms_termOf:
  "matchTerms env (termOf k # ts) s i =
     (if i < length s \<and> charMatches env k (s ! i) then matchTerms env ts s (Suc i) else None)"
  by (simp add: termOf_def charMatches_def)

lemma matchTerms_keyword:
  "i \<le> length s \<Longrightarrow>
   matchTerms env (map termOf kw) s i = (if keywordAt env kw s i then Some (i + length kw) else None)"
proof (induction kw arbitrary: i)
  case Nil
  then show ?case by (simp add: keywordAt_Nil)
next
  case (Cons k ks)
  show ?case
  proof (cases "i < length s \<and> charMatches env k (s ! i)")
    case True
    then have "Suc i \<le> length s" by simp
    from Cons.IH [OF this] True show ?thesis
      by (simp add: keywordAt_Cons matchTerms_termOf)
  next
    case False
    then show ?thesis
      by (auto simp: keywordAt_Cons matchTerms_termOf)
  qed
qed

lemma matchTerms_pattern:
  "i \<le> length s \<Longrightarrow>
   matchTerms env (WordBoundary # map termOf kw) s i =
     (if wordBoundary s i \<and> keywordAt env kw s i then Some (i + length kw) else None)"
  by (simp add: matchTerms_keyword wordBoundary_def)

text \<open>The search loop. For a keyword pattern every match has the length of the keyword.\<close>

lemma matchAllFrom_sound:
  "j \<in> set (matchAllFrom env ts s i) \<Longrightarrow> i \<le> j \<and> j \<le> length s \<and> matchTerms env ts s j \<noteq> None"
proof (induction env ts s i rule: matchAllFrom.induct)
  case (1 env ts s i)
  show ?case
  proof (cases "length s < i")
    case True
    with "1.prems" show ?thesis by (simp add: matchAllFrom.simps [of env ts s i])
  next
    case False
    show ?thesis
    proof (cases "matchTerms env ts s i")
      case None
      with False "1.prems" have "j \<in> set (matchAllFrom env ts s (Suc i))"
        by (simp add: matchAllFrom.simps [of env ts s i])
      from "1.IH"(1) [OF False None this] show ?thesis by simp
    next
      case (Some e)
      with False "1.prems"
      have "j = i \<or> j \<in> set (matchAllFrom env ts s (if e \<le> i then Suc i else e))"
        by (simp add: matchAllFrom.simps [of env ts s i])
      then show ?thesis
      proof
        assume "j = i"
        with False Some show ?thesis by simp
      next
        assume "j \<in> set (matchAllFrom env ts s (if e \<le> i then Suc i else e))"
        from "1.IH"(2) [OF False Some this] show ?thesis by (auto split: if_splits)
      qed
    qed
  qed
qed

lemma matchAllFrom_separated:
  assumes len: "\<And>j e. j \<le> length s \<Longrightarrow> matchTerms env ts s j = Some e \<Longrightarrow> e = j + n"
  shows "sorted_wrt (\<lambda>a b. a < b \<and> a + n \<le> b) (matchAllFrom env ts s i)"
  using len
proof (induction env ts s i rule: matchAllFrom.induct)
  case (1 env ts s i)
  show ?case
  proof (cases "length s < i")
    case True
    then show ?thesis by (simp add: matchAllFrom.simps [of env ts s i])
  next
    case False
    show ?thesis
    proof (cases "matchTerms env ts s i")
      case None
      from "1.IH"(1) [OF False None "1.prems"] None False show ?thesis
        by (simp add: matchAllFrom.simps [of env ts s i])
    next
      case (Some e)
      from False have "i \<le> length s" by simp
      from "1.prems" [OF this Some] have e: "e = i + n" .
      let ?next = "if e \<le> i then Suc i else e"
      have rest: "sorted_wrt (\<lambda>a b. a < b \<and> a + n \<le> b) (matchAllFrom env ts s ?next)"
        using "1.IH"(2) [OF False Some "1.prems"] by simp
      have "\<forall>j \<in> set (matchAllFrom env ts s ?next). i < j \<and> i + n \<le> j"
      proof
        fix j assume "j \<in> set (matchAllFrom env ts s ?next)"
        from matchAllFrom_sound [OF this] have "?next \<le> j" by simp
        with e show "i < j \<and> i + n \<le> j" by (auto split: if_splits)
      qed
      with rest Some False show ?thesis
        by (simp add: matchAllFrom.simps [of env ts s i])
    qed
  qed
qed

lemma matchAllFrom_complete:
  assumes len: "\<And>j e. j \<le> length s \<Longrightarrow> matchTerms env ts s j = Some e \<Longrightarrow> e = j + n"
    and "i \<le> j" and "j \<le> length s" and "matchTerms env ts s j \<noteq> None"
  shows "j \<in> set (matchAllFrom env ts s i) \<or> (\<exists>k \<in> set (matchAllFrom env ts s i). k < j \<and> j < k + n)"
  using assms
proof (induction env ts s i rule: matchAllFrom.induct)
  case (1 env ts s i)
  from "1.prems"(2,3) have inb: "\<not> length s < i" by simp
  show ?case
  proof (cases "matchTerms env ts s i")
    case None
    with "1.prems"(4) have "i \<noteq> j" by auto
    with "1.prems"(2) have "Suc i \<le> j" by simp
    from "1.IH"(1) [OF inb None "1.prems"(1) this "1.prems"(3,4)] None inb show ?thesis
      by (simp add: matchAllFrom.simps [of env ts s i])
  next
    case (Some e)
    from inb have "i \<le> length s" by simp
    from "1.prems"(1) [OF this Some] have e: "e = i + n" .
    let ?next = "if e \<le> i then Suc i else e"
    have unfold: "matchAllFrom env ts s i = i # matchAllFrom env ts s ?next"
      using Some inb by (simp add: matchAllFrom.simps [of env ts s i])
    show ?thesis
    proof (cases "?next \<le> j")
      case True
      from "1.IH"(2) [OF inb Some "1.prems"(1) _ "1.prems"(3,4)] True
      have "j \<in> set (matchAllFrom env ts s ?next)
            \<or> (\<exists>k \<in> set (matchAllFrom env ts s ?next). k < j \<and> j < k + n)"
        by simp
      then show ?thesis unfolding unfold by auto
    next
      case False
      with e "1.prems"(2) have "j = i \<or> (i < j \<and> j < i + n)"
        by (auto split: if_splits)
      then show ?thesis unfolding unfold by auto
    qed
  qed
qed

lemma isWordChar_canonicalize: "isWordChar (canonicalize env c) = isWordChar c"
proof (cases "c < 128")
  case True
  then show ?thesis by (auto simp: isWordChar_def canonicalize_def)
next
  case False
  then have "128 \<le> canonicalize env c"
    by (auto simp: canonicalize_def split: list.splits)
  with False show ?thesis by (simp add: isWordChar_def)
qed

lemma charMatches_word:
  assumes "charMatches env k c" and "k = asterisk \<or> isWordChar k"
  shows "isWordChar c"
proof (cases "k = asterisk")
  case True
  with assms(1) show ?thesis by (simp add: charMatches_def)
next
  case False
  with assms have "canonicalize env c = canonicalize env k" and "isWordChar k"
    by (simp_all add: charMatches_def)
  then show ?thesis by (metis isWordChar_canonicalize)
qed

lemma keywordAt_wordAt:
  assumes "kw \<noteq> []" and "hd kw = asterisk \<or> isWordChar (hd kw)" and "keywordAt env kw s i"
  shows "wordAt s i"
proof -
  from assms(1) obtain k ks where kw: "kw = k # ks" by (cases kw) auto
  with assms(3) have "i < length s" and "charMatches env k (s ! i)"
    by (simp_all add: keywordAt_Cons)
  with assms(2) kw show ?thesis by (auto simp: wordAt_def dest: charMatches_word)
qed

lemma keywordMatches_eq:
  "keywordMatches env s kw = matchAllFrom env (WordBoundary # map termOf kw) s 0"
  by (simp add: keywordMatches_def parsePattern_keywordPattern)

lemma keyword_match_length:
  "j \<le> length s \<Longrightarrow> matchTerms env (WordBoundary # map termOf kw) s j = Some e
    \<Longrightarrow> e = j + length kw"
  by (simp add: matchTerms_pattern del: matchTerms.simps split: if_splits)

text \<open>
  What the scorer counts, for every browser, text and keyword: the pattern built from
  the keyword is the word-boundary assertion followed by one term per keyword
  character, the word-character class for an asterisk and the character itself, as
  literal text, for every other character, regular-expression metacharacters included.
  Every counted match starts at a word boundary where the keyword is matched character
  by character, ignoring case, an asterisk taking exactly one word character. The
  counted matches are listed from left to right and do not overlap. Every index where
  the keyword is so matched at a word boundary is counted unless it lies inside an
  earlier counted match. When the keyword starts with a word character or an asterisk,
  the word boundary is a word start, so that the keyword is matched as a prefix of a
  word of the text. The count is the number of the counted matches.
\<close>

lemma keyword_pattern_matches:
  "parsePattern (keywordPattern kw) = Some (WordBoundary # map termOf kw)
   \<and> keywordCount env s kw = length (keywordMatches env s kw)
   \<and> (\<forall>i \<in> set (keywordMatches env s kw). wordBoundary s i \<and> keywordAt env kw s i)
   \<and> sorted_wrt (\<lambda>i j. i < j \<and> i + length kw \<le> j) (keywordMatches env s kw)
   \<and> (\<forall>i. wordBoundary s i \<and> keywordAt env kw s i \<longrightarrow>
         i \<in> set (keywordMatches env s kw)
         \<or> (\<exists>j \<in> set (keywordMatches env s kw). j < i \<and> i < j + length kw))
   \<and> (kw \<noteq> [] \<and> (hd kw = asterisk \<or> isWordChar (hd kw)) \<longrightarrow>
         (\<forall>i. keywordAt env kw s i \<longrightarrow> wordBoundary s i = wordStart s i))"
proof (intro conjI ballI allI impI)
  show "parsePattern (keywordPattern kw) = Some (WordBoundary # map termOf kw)"
    by (rule parsePattern_keywordPattern)
next
  show "keywordCount env s kw = length (keywordMatches env s kw)"
    by (simp add: keywordCount_def)
next
  fix i assume "i \<in> set (keywordMatches env s kw)"
  then have "i \<le> length s" and "matchTerms env (WordBoundary # map termOf kw) s i \<noteq> None"
    using matchAllFrom_sound [of i env "WordBoundary # map termOf kw" s 0]
    by (simp_all add: keywordMatches_eq)
  then have "wordBoundary s i \<and> keywordAt env kw s i"
    by (simp add: matchTerms_pattern del: matchTerms.simps split: if_splits)
  then show "wordBoundary s i" and "keywordAt env kw s i" by simp_all
next
  show "sorted_wrt (\<lambda>i j. i < j \<and> i + length kw \<le> j) (keywordMatches env s kw)"
    unfolding keywordMatches_eq
    by (rule matchAllFrom_separated) (rule keyword_match_length)
next
  fix i assume at: "wordBoundary s i \<and> keywordAt env kw s i"
  then have "i \<le> length s" by (simp add: keywordAt_def)
  moreover from this at have "matchTerms env (WordBoundary # map termOf kw) s i \<noteq> None"
    by (simp add: matchTerms_pattern del: matchTerms.simps)
  ultimately show "i \<in> set (keywordMatches env s kw)
      \<or> (\<exists>j \<in> set (keywordMatches env s kw). j < i \<and> i < j + length kw)"
    unfolding keywordMatches_eq
    by (intro matchAllFrom_complete keyword_match_length) simp_all
next
  fix i
  assume "kw \<noteq> [] \<and> (hd kw = asterisk \<or> isWordChar (hd kw))" and "keywordAt env kw s i"
  then have "wordAt s i" by (blast intro: keywordAt_wordAt)
  then show "wordBoundary s i = wordStart s i"
    by (auto simp: wordBoundary_def wordStart_def)
qed

text \<open>
  Examples: the text word \<open>Magical\<close> is counted for the keyword \<open>magic\<close>, at a word
  start; \<open>wom*n\<close> is matched in \<open>woman\<close> and \<open>women\<close> and not in \<open>womn\<close>; a
  metacharacter of the keyword is literal text; and in a browser that knows the
  letters of Latin-1 a keyword that ends with the letter \<open>U+00E9\<close> (e with acute
  accent) is counted where the text has that letter or its upper-case form \<open>U+00C9\<close>.
\<close>

lemma keyword_pattern_examples:
  "keywordMatches env (str ''Magical forest'') (str ''magic'') = [0]
   \<and> wordStart (str ''Magical forest'') 0
   \<and> keywordMatches env (str ''woman women womn'') (str ''wom*n'') = [0, 6]
   \<and> keywordCount env (str ''a+b and aab'') (str ''a+b'') = 1
   \<and> keywordCount plainBrowser (str ''CAF'' @ [0xC9] @ str '' caf'' @ [0xE9] @ str '' '')
        (str ''caf'' @ [0xE9]) = 2"
  by code_simp

text \<open>
  C1. The scorer is to count a keyword at the words of the text that begin with it; the
  source says of its pattern that it matches whole words at the beginning. The code
  does so for a keyword that starts with a word character or an asterisk (lemma
  \<open>keyword_pattern_matches\<close>), and not for a keyword that starts with another
  character, since the pattern asserts a word boundary and not a word start. The
  keyword \<open>-fi\<close>, which has no asterisk, is counted in \<open>sci-fi\<close> at index 3, in the
  middle of a word; and it is not counted in \<open>a -fi\<close>, where the text after the blank
  begins with the keyword. This holds in every browser.
\<close>

theorem keyword_matching_mid_word:
  "asterisk \<notin> set (str ''-fi'')
   \<and> keywordMatches env (str ''sci-fi'') (str ''-fi'') = [3]
   \<and> keywordCount env (str ''sci-fi'') (str ''-fi'') = 1
   \<and> \<not> wordStart (str ''sci-fi'') 3
   \<and> keywordAt env (str ''-fi'') (str ''a -fi'') 2
   \<and> \<not> wordBefore (str ''a -fi'') 2
   \<and> keywordCount env (str ''a -fi'') (str ''-fi'') = 0"
  by code_simp

section \<open>Scoring: properties of the loops\<close>

subsection \<open>Objects\<close>

lemma protoName_member: "protoName \<in> set objectPrototypeNames"
  by (simp add: objectPrototypeNames_def)

lemma map_of_objSet:
  "map_of (objSet k v obj) k' = (if k' = k \<and> k \<noteq> protoName then Some v else map_of obj k')"
  by (simp add: objSet_def update_conv')

lemma keys_objSet:
  "map fst (objSet k v obj) =
     (if k = protoName \<or> k \<in> set (map fst obj) then map fst obj else map fst obj @ [k])"
  by (simp add: objSet_def update_keys)

lemma distinct_objSet: "distinct (map fst obj) \<Longrightarrow> distinct (map fst (objSet k v obj))"
  by (simp add: objSet_def distinct_update)

lemma set_objSet_subset: "set (objSet k v obj) \<subseteq> insert (k, v) (set obj)"
proof -
  have "set (AList.update k v obj) \<subseteq> insert (k, v) (set obj)"
    by (induction obj) auto
  then show ?thesis by (auto simp: objSet_def)
qed

lemma objSet_new:
  "k \<noteq> protoName \<Longrightarrow> k \<notin> fst ` set obj \<Longrightarrow> objSet k v obj = obj @ [(k, v)]"
  unfolding objSet_def by (induction obj) auto

lemma objSet_no_proto:
  assumes "protoName \<notin> fst ` set obj"
  shows "protoName \<notin> fst ` set (objSet k v obj)"
proof (cases "k = protoName")
  case True
  with assms show ?thesis by (simp add: objSet_def)
next
  case False
  have "fst ` set (objSet k v obj) \<subseteq> insert k (fst ` set obj)"
    using set_objSet_subset [of k v obj] by force
  with False assms show ?thesis by blast
qed

lemma mset_objectEntries: "mset (objectEntries obj) = mset obj"
  by (simp add: objectEntries_def)

lemma set_objectEntries: "set (objectEntries obj) = set obj"
  by (metis mset_objectEntries set_mset_mset)

lemma map_insort_key_fst:
  "map fst (insort_key (\<lambda>p. f (fst p)) x xs) = insort_key f (fst x) (map fst xs)"
  by (induction xs) auto

lemma map_sort_key_fst: "map fst (sort_key (\<lambda>p. f (fst p)) xs) = sort_key f (map fst xs)"
  by (induction xs) (auto simp: map_insort_key_fst)

lemma keys_objectEntries: "map fst (objectEntries obj) = enumerationOrder (map fst obj)"
  by (simp add: objectEntries_def enumerationOrder_def filter_map comp_def
      map_sort_key_fst [of "\<lambda>k. the (arrayIndex k)"])

lemma distinct_objectEntries:
  "distinct (map fst obj) \<Longrightarrow> distinct (map fst (objectEntries obj))"
  by (metis distinct_map mset_objectEntries mset_eq_imp_distinct_iff mset_map)

subsection \<open>Sorting\<close>

lemma insertSorted_insort_key:
  "insertSorted (\<lambda>a b. f b - f a) x ys = insort_key (\<lambda>a. - f a) x ys"
  for f :: "'a \<Rightarrow> int"
  by (induction ys) auto

lemma arraySort_sort_key: "arraySort (\<lambda>a b. f b - f a) xs = sort_key (\<lambda>a. - f a) xs"
  for f :: "'a \<Rightarrow> int"
  by (induction xs) (auto simp: arraySort_def insertSorted_insort_key)

lemma arraySort_descending:
  fixes f :: "'a \<Rightarrow> nat"
  shows "sorted_wrt (\<lambda>a b. f b \<le> f a) (arraySort (\<lambda>a b. int (f b) - int (f a)) xs)"
proof -
  have "sorted (map (\<lambda>a. - int (f a)) (sort_key (\<lambda>a. - int (f a)) xs))"
    by (rule sorted_sort_key)
  then show ?thesis
    by (simp add: arraySort_sort_key sorted_map sorted_wrt_iff_nth_less)
qed

lemma arraySort_stable:
  fixes f :: "'a \<Rightarrow> nat"
  shows "filter (\<lambda>a. f a = n) (arraySort (\<lambda>a b. int (f b) - int (f a)) xs)
         = filter (\<lambda>a. f a = n) xs"
proof -
  have "filter (\<lambda>a. - int (f a) = - int n) (sort_key (\<lambda>a. - int (f a)) xs)
        = filter (\<lambda>a. - int (f a) = - int n) xs"
    by (rule sort_key_stable)
  then show ?thesis by (simp add: arraySort_sort_key)
qed

lemma set_arraySort:
  fixes f :: "'a \<Rightarrow> nat"
  shows "set (arraySort (\<lambda>a b. int (f b) - int (f a)) xs) = set xs"
  by (simp add: arraySort_sort_key)

lemma mset_arraySort:
  fixes f :: "'a \<Rightarrow> nat"
  shows "mset (arraySort (\<lambda>a b. int (f b) - int (f a)) xs) = mset xs"
  by (simp add: arraySort_sort_key)

text \<open>The sort looks at the comparison of elements of the array only.\<close>

lemma set_insertSorted: "set (insertSorted cmp x ys) = insert x (set ys)"
  by (induction ys) auto

lemma set_arraySort_any: "set (arraySort cmp xs) = set xs"
  by (induction xs) (simp_all add: arraySort_def set_insertSorted)

lemma insertSorted_cong:
  "\<forall>y \<in> set ys. cmp x y = cmp' x y \<Longrightarrow> insertSorted cmp x ys = insertSorted cmp' x ys"
  by (induction ys) auto

lemma arraySort_cong:
  "\<forall>a \<in> set xs. \<forall>b \<in> set xs. cmp a b = cmp' a b \<Longrightarrow> arraySort cmp xs = arraySort cmp' xs"
proof (induction xs)
  case Nil
  show ?case by (simp add: arraySort_def)
next
  case (Cons x xs)
  from Cons.prems have "arraySort cmp xs = arraySort cmp' xs"
    by (intro Cons.IH) simp
  moreover from Cons.prems have "\<forall>y \<in> set (arraySort cmp' xs). cmp x y = cmp' x y"
    by (simp add: set_arraySort_any)
  ultimately have "insertSorted cmp x (arraySort cmp xs) = insertSorted cmp' x (arraySort cmp' xs)"
    by (simp add: insertSorted_cong)
  then show ?case by (simp add: arraySort_def)
qed

subsection \<open>The keyword loop\<close>

lemma scoreKeywords_total:
  "snd (scoreKeywords env s kws (h, t)) = t + sum_list (map (keywordCount env s) kws)"
  by (induction kws arbitrary: h t) (auto simp: Let_def)

lemma scoreKeywords_get:
  "map_of (fst (scoreKeywords env s kws (h, t))) k =
     (if k \<in> set kws \<and> 0 < keywordCount env s k \<and> k \<noteq> protoName
      then Some (keywordCount env s k) else map_of h k)"
  by (induction kws arbitrary: h t) (auto simp: Let_def map_of_objSet)

lemma scoreKeywords_distinct:
  "distinct (map fst h) \<Longrightarrow> distinct (map fst (fst (scoreKeywords env s kws (h, t))))"
  by (induction kws arbitrary: h t) (auto simp: Let_def distinct_objSet)

lemma scoreKeywords_no_proto:
  "protoName \<notin> fst ` set h \<Longrightarrow> protoName \<notin> fst ` set (fst (scoreKeywords env s kws (h, t)))"
proof (induction kws arbitrary: h t)
  case Nil
  then show ?case by simp
next
  case (Cons kw kws)
  from Cons.prems have "protoName \<notin> fst ` set (objSet kw (keywordCount env s kw) h)"
    by (rule objSet_no_proto)
  with Cons.prems show ?case
    by (auto simp: Let_def dest: Cons.IH)
qed

lemma scoreKeywords_positive:
  "\<forall>e \<in> set h. 1 \<le> snd e \<Longrightarrow> \<forall>e \<in> set (fst (scoreKeywords env s kws (h, t))). 1 \<le> snd e"
proof (induction kws arbitrary: h t)
  case Nil
  then show ?case by simp
next
  case (Cons kw kws)
  show ?case
  proof (cases "0 < keywordCount env s kw")
    case True
    have "\<forall>e \<in> set (objSet kw (keywordCount env s kw) h). 1 \<le> snd e"
      using Cons.prems True set_objSet_subset [of kw "keywordCount env s kw" h]
      by auto
    from Cons.IH [OF this] True show ?thesis by (simp add: Let_def)
  next
    case False
    with Cons show ?thesis by (simp add: Let_def)
  qed
qed

lemma scoreKeywords_total_pos:
  "0 < snd (scoreKeywords env s kws ([], 0)) \<longleftrightarrow> (\<exists>kw \<in> set kws. 0 < keywordCount env s kw)"
proof -
  have "0 < sum_list (map (keywordCount env s) kws) \<longleftrightarrow> (\<exists>kw \<in> set kws. 0 < keywordCount env s kw)"
    by (induction kws) auto
  then show ?thesis by (simp only: scoreKeywords_total add_0)
qed

text \<open>
  The sum of the counts recorded in \<open>hits\<close>: every keyword of the list that occurs in
  the text is recorded once, except \<^verbatim>\<open>__proto__\<close>, which is not recorded.
\<close>

lemma sum_values_distinct:
  fixes h :: "nat js_object"
  assumes "distinct (map fst h)"
  shows "sum_list (map snd h) = (\<Sum>k \<in> fst ` set h. the (map_of h k))"
  using assms
proof (induction h)
  case Nil
  show ?case by simp
next
  case (Cons e h)
  from Cons.prems have new: "fst e \<notin> fst ` set h" and d: "distinct (map fst h)" by auto
  have "the (map_of (e # h) k) = the (map_of h k)" if "k \<in> fst ` set h" for k
    using that new by (cases e) auto
  then have "(\<Sum>k \<in> fst ` set h. the (map_of (e # h) k)) = (\<Sum>k \<in> fst ` set h. the (map_of h k))"
    by (intro sum.cong refl)
  with new Cons.IH [OF d] show ?case by (cases e) simp
qed

lemma scoreKeywords_sum:
  "sum_list (map snd (fst (scoreKeywords env s kws ([], 0))))
     = sum_list (map (keywordCount env s) (remdups (filter (\<lambda>kw. kw \<noteq> protoName) kws)))"
proof -
  let ?h = "fst (scoreKeywords env s kws ([], 0))"
  let ?K = "{k \<in> set kws. 0 < keywordCount env s k \<and> k \<noteq> protoName}"
  let ?S = "set (filter (\<lambda>kw. kw \<noteq> protoName) kws)"
  have get: "map_of ?h k = (if k \<in> ?K then Some (keywordCount env s k) else None)" for k
    by (simp add: scoreKeywords_get)
  have "fst ` set ?h = dom (map_of ?h)" by (simp add: dom_map_of_conv_image_fst)
  also have "\<dots> = ?K" by (auto simp: get dom_def)
  finally have keys: "fst ` set ?h = ?K" .
  have "distinct (map fst ?h)" by (rule scoreKeywords_distinct) simp
  then have "sum_list (map snd ?h) = (\<Sum>k \<in> fst ` set ?h. the (map_of ?h k))"
    by (rule sum_values_distinct)
  also have "\<dots> = (\<Sum>k \<in> ?K. keywordCount env s k)"
    unfolding keys by (intro sum.cong) (simp_all add: get)
  also have "\<dots> = (\<Sum>k \<in> ?S. keywordCount env s k)"
    by (intro sum.mono_neutral_left) auto
  also have "\<dots> = sum_list (map (keywordCount env s) (remdups (filter (\<lambda>kw. kw \<noteq> protoName) kws)))"
    by (simp add: sum_list_distinct_conv_sum_set)
  finally show ?thesis .
qed

subsection \<open>The category loop\<close>

lemma scoreTable_eq:
  "scoreTable env s table =
     map (\<lambda>cat. \<lparr>category = fst cat,
                 score = snd (scoreKeywords env s (snd cat) ([], 0)),
                 hits = fst (scoreKeywords env s (snd cat) ([], 0))\<rparr>)
       (filter (matched env s) table)"
  by (induction table) (auto simp: Let_def matched_def scoreKeywords_total_pos)

lemma scoreTable_append:
  "scoreTable env s (xs @ ys) = scoreTable env s xs @ scoreTable env s ys"
  by (simp add: scoreTable_eq)

lemma scoreTable_categories:
  "map category (scoreTable env s table) = map fst (filter (matched env s) table)"
  by (simp add: scoreTable_eq comp_def)

lemma scoreTable_score_pos: "r \<in> set (scoreTable env s table) \<Longrightarrow> 0 < score r"
  by (auto simp: scoreTable_eq matched_def scoreKeywords_total_pos)

lemma scoreTable_hits_distinct:
  "r \<in> set (scoreTable env s table) \<Longrightarrow> distinct (map fst (hits r))"
  by (auto simp: scoreTable_eq scoreKeywords_distinct)

lemma scoreTable_hits_no_proto:
  assumes "r \<in> set (scoreTable env s table)"
  shows "protoName \<notin> fst ` set (hits r)"
proof -
  from assms obtain cat where "hits r = fst (scoreKeywords env s (snd cat) ([], 0))"
    by (auto simp: scoreTable_eq)
  moreover have "protoName \<notin> fst ` set (fst (scoreKeywords env s (snd cat) ([], 0)))"
    by (rule scoreKeywords_no_proto) simp
  ultimately show ?thesis by simp
qed

lemma scoreTable_hits_positive:
  "r \<in> set (scoreTable env s table) \<Longrightarrow> \<forall>e \<in> set (hits r). 1 \<le> snd e"
proof -
  have "\<forall>e \<in> set (fst (scoreKeywords env s kws ([], 0))). 1 \<le> snd e" for kws
    by (rule scoreKeywords_positive) simp
  then show "r \<in> set (scoreTable env s table) \<Longrightarrow> \<forall>e \<in> set (hits r). 1 \<le> snd e"
    by (fastforce simp: scoreTable_eq)
qed

lemma scoreTable_hits_keywords:
  assumes "r \<in> set (scoreTable env s table)" and "k \<in> fst ` set (hits r)"
  shows "\<exists>cat \<in> set table. k \<in> set (snd cat)"
proof -
  from assms(1) obtain cat where cat: "cat \<in> set table"
    and h: "hits r = fst (scoreKeywords env s (snd cat) ([], 0))"
    by (auto simp: scoreTable_eq)
  from assms(2) have "map_of (hits r) k \<noteq> None"
    by (simp add: map_of_eq_None_iff)
  then have "k \<in> set (snd cat)"
    unfolding h scoreKeywords_get by (auto split: if_splits)
  with cat show ?thesis by blast
qed

lemma hitCount_scoreKeywords:
  "hitCount (fst (scoreKeywords env s kws ([], 0))) k =
     (if k \<in> set kws \<and> k \<noteq> protoName then keywordCount env s k else 0)"
  by (auto simp: hitCount_def scoreKeywords_get)

lemma scoreTable_hitCount:
  assumes "k \<noteq> protoName"
  shows "sum_list (map (\<lambda>r. hitCount (hits r) k) (scoreTable env s table))
     = sum_list (map (\<lambda>cat. categoryCount env s cat k) table)"
proof (induction table)
  case Nil
  show ?case by simp
next
  case (Cons cat table)
  show ?case
  proof (cases "matched env s cat")
    case True
    with Cons assms show ?thesis
      by (simp add: scoreTable_eq hitCount_scoreKeywords categoryCount_def)
  next
    case False
    then have "categoryCount env s cat k = 0" by (auto simp: matched_def categoryCount_def)
    with False Cons show ?thesis by (simp add: scoreTable_eq)
  qed
qed

subsection \<open>Aggregation\<close>

lemma aggregateHits_concat:
  "aggregateHits results = fold addHit (concat (map (\<lambda>r. objectEntries (hits r)) results)) []"
proof -
  have "fold (\<lambda>r m. fold addHit (objectEntries (hits r)) m) results m
        = fold addHit (concat (map (\<lambda>r. objectEntries (hits r)) results)) m" for m
    by (induction results arbitrary: m) auto
  then show ?thesis by (simp add: aggregateHits_def)
qed

lemma keys_addHit:
  "map fst (addHit e m) =
     (if fst e = protoName \<or> fst e \<in> set (map fst m) then map fst m else map fst m @ [fst e])"
  by (simp add: addHit_def keys_objSet)

lemma keys_fold_addHit:
  "protoName \<notin> fst ` set es \<Longrightarrow>
   map fst (fold addHit es m)
     = map fst m @ filter (\<lambda>k. k \<notin> set (map fst m)) (firstOccurrences (map fst es))"
proof (induction es arbitrary: m)
  case Nil
  show ?case by simp
next
  case (Cons e es)
  from Cons.prems have np: "fst e \<noteq> protoName" and rest: "protoName \<notin> fst ` set es"
    by auto
  show ?case
  proof (cases "fst e \<in> set (map fst m)")
    case True
    then have "filter (\<lambda>k. k \<notin> set (map fst m)) (filter (\<lambda>y. y \<noteq> fst e) xs)
               = filter (\<lambda>k. k \<notin> set (map fst m)) xs" for xs
      by (induction xs) auto
    with True np Cons.IH [OF rest, of "addHit e m"] show ?thesis by (simp add: keys_addHit)
  next
    case False
    then have "filter (\<lambda>k. k \<notin> set (map fst m @ [fst e])) xs
               = filter (\<lambda>k. k \<notin> set (map fst m)) (filter (\<lambda>y. y \<noteq> fst e) xs)" for xs
      by (induction xs) auto
    with False np Cons.IH [OF rest, of "addHit e m"] show ?thesis by (simp add: keys_addHit)
  qed
qed

lemma distinct_fold_addHit:
  "distinct (map fst m) \<Longrightarrow> distinct (map fst (fold addHit es m))"
  by (induction es arbitrary: m) (auto simp: addHit_def distinct_objSet)

lemma distinct_aggregateHits: "distinct (map fst (aggregateHits results))"
  by (simp add: aggregateHits_concat distinct_fold_addHit)

lemma set_firstOccurrences: "set (firstOccurrences xs) = set xs"
  by (induction xs) auto

lemma keys_aggregateHits:
  assumes "\<forall>r \<in> set results. protoName \<notin> fst ` set (hits r)"
  shows "map fst (aggregateHits results) = encountered results"
proof -
  have "map fst (concat (map (\<lambda>r. objectEntries (hits r)) results))
        = concat (map (\<lambda>r. map fst (objectEntries (hits r))) results)"
    by (induction results) auto
  moreover have "protoName \<notin> fst ` set (concat (map (\<lambda>r. objectEntries (hits r)) results))"
    using assms by (auto simp: set_objectEntries)
  ultimately show ?thesis
    by (simp add: aggregateHits_concat keys_fold_addHit encountered_def)
qed

lemma set_encountered:
  "set (encountered results) = (\<Union>r \<in> set results. fst ` set (hits r))"
  by (auto simp: encountered_def set_firstOccurrences set_objectEntries)

text \<open>
  Aggregation over keywords of which none names a member of \<open>Object.prototype\<close>: every
  value of the map is a number, the sum of the counts added for its key.
\<close>

lemma addHit_numbers:
  assumes "fst e \<notin> set objectPrototypeNames" and "allNumbers m"
  shows "allNumbers (addHit e m)
         \<and> aggregateCount (addHit e m) k
             = aggregateCount m k + (if fst e = k then snd e else 0)"
proof -
  from assms(1) have np: "fst e \<noteq> protoName" using protoName_member by auto
  show ?thesis
  proof (cases "map_of m (fst e)")
    case None
    then have v: "addHit e m = objSet (fst e) (Num (snd e)) m"
      using assms(1) by (simp add: addHit_def objGet_def)
    have "allNumbers (objSet (fst e) (Num (snd e)) m)"
      using assms(2) set_objSet_subset [of "fst e" "Num (snd e)" m]
      by (auto simp: allNumbers_def list_all_iff)
    moreover have "aggregateCount (objSet (fst e) (Num (snd e)) m) k
        = aggregateCount m k + (if fst e = k then snd e else 0)"
      using None np by (auto simp: aggregateCount_def map_of_objSet)
    ultimately show ?thesis by (simp only: v)
  next
    case (Some c)
    then have "(fst e, c) \<in> set m" by (rule map_of_SomeD)
    with assms(2) obtain n where c: "c = Num n"
      by (cases c) (auto simp: allNumbers_def list_all_iff)
    from Some c have v: "addHit e m = objSet (fst e) (Num (n + snd e)) m"
      by (simp add: addHit_def objGet_def)
    have "allNumbers (objSet (fst e) (Num (n + snd e)) m)"
      using assms(2) set_objSet_subset [of "fst e" "Num (n + snd e)" m]
      by (auto simp: allNumbers_def list_all_iff)
    moreover have "aggregateCount (objSet (fst e) (Num (n + snd e)) m) k
        = aggregateCount m k + (if fst e = k then snd e else 0)"
      using Some c np by (auto simp: aggregateCount_def map_of_objSet)
    ultimately show ?thesis by (simp only: v)
  qed
qed

lemma fold_addHit_numbers:
  assumes "\<forall>e \<in> set es. fst e \<notin> set objectPrototypeNames" and "allNumbers m"
  shows "allNumbers (fold addHit es m)
         \<and> aggregateCount (fold addHit es m) k
             = aggregateCount m k + sum_list (map snd (filter (\<lambda>e. fst e = k) es))"
  using assms
proof (induction es arbitrary: m)
  case Nil
  then show ?case by simp
next
  case (Cons e es)
  from Cons.prems have e: "fst e \<notin> set objectPrototypeNames"
    and rest: "\<forall>e \<in> set es. fst e \<notin> set objectPrototypeNames"
    by simp_all
  note step = addHit_numbers [OF e Cons.prems(2), of k]
  from Cons.IH [OF rest conjunct1 [OF step]] step show ?case by auto
qed

lemma le_sum_list_map:
  fixes f :: "'a \<Rightarrow> nat"
  shows "x \<in> set xs \<Longrightarrow> f x \<le> sum_list (map f xs)"
  by (induction xs) auto

lemma hitCount_distinct:
  "distinct (map fst h) \<Longrightarrow> sum_list (map snd (filter (\<lambda>e. fst e = k) h)) = hitCount h k"
proof (induction h)
  case Nil
  show ?case by (simp add: hitCount_def)
next
  case (Cons e h)
  show ?case
  proof (cases "fst e = k")
    case True
    with Cons.prems have "k \<notin> fst ` set h" by auto
    then have "filter (\<lambda>e. fst e = k) h = []" by (auto simp: filter_empty_conv)
    with True show ?thesis by (cases e) (simp add: hitCount_def)
  next
    case False
    with Cons show ?thesis by (cases e) (simp add: hitCount_def)
  qed
qed

lemma sum_objectEntries:
  fixes h :: "nat js_object"
  shows "sum_list (map snd (filter P (objectEntries h))) = sum_list (map snd (filter P h))"
proof -
  have "mset (map snd (filter P (objectEntries h))) = mset (map snd (filter P h))"
    by (simp add: mset_objectEntries)
  then have "sum_mset (mset (map snd (filter P (objectEntries h))))
             = sum_mset (mset (map snd (filter P h)))"
    by (rule arg_cong)
  then show ?thesis by (simp only: sum_mset_sum_list)
qed

lemma sum_entries_results:
  assumes "\<forall>r \<in> set results. distinct (map fst (hits r))"
  shows "sum_list (map snd (filter (\<lambda>e. fst e = k)
           (concat (map (\<lambda>r. objectEntries (hits r)) results))))
         = sum_list (map (\<lambda>r. hitCount (hits r) k) results)"
  using assms
  by (induction results) (auto simp: sum_objectEntries hitCount_distinct)

lemma aggregateHits_numbers:
  assumes plain: "\<forall>k \<in> set (encountered results). k \<notin> set objectPrototypeNames"
    and d: "\<forall>r \<in> set results. distinct (map fst (hits r))"
  shows "allNumbers (aggregateHits results)"
    and "aggregateCount (aggregateHits results) k
           = sum_list (map (\<lambda>r. hitCount (hits r) k) results)"
proof -
  let ?es = "concat (map (\<lambda>r. objectEntries (hits r)) results)"
  have "\<forall>e \<in> set ?es. fst e \<notin> set objectPrototypeNames"
    using plain by (auto simp: set_encountered set_objectEntries)
  moreover have "allNumbers []" by (simp add: allNumbers_def)
  ultimately have both: "allNumbers (fold addHit ?es [])
         \<and> aggregateCount (fold addHit ?es []) k
             = aggregateCount [] k + sum_list (map snd (filter (\<lambda>e. fst e = k) ?es))"
    by (rule fold_addHit_numbers)
  then show "allNumbers (aggregateHits results)" by (simp add: aggregateHits_concat)
  from both sum_entries_results [OF d, of k]
  show "aggregateCount (aggregateHits results) k
           = sum_list (map (\<lambda>r. hitCount (hits r) k) results)"
    by (simp add: aggregateHits_concat aggregateCount_def)
qed

subsection \<open>The fields of the analysis result\<close>

lemma byScore_eq: "byScore = (\<lambda>a b. int (score b) - int (score a))"
  by (simp add: fun_eq_iff byScore_def)

lemma genres_analyzeText:
  "genres (analyzeText env s G T) = arraySort byScore (scoreTable env s G)"
  by (simp add: analyzeText_def Let_def)

lemma tags_analyzeText:
  "tags (analyzeText env s G T) = arraySort byScore (scoreTable env s T)"
  by (simp add: analyzeText_def Let_def)

lemma allHits_analyzeText:
  "allHits (analyzeText env s G T) =
     sortByCount env
       (map (\<lambda>(k, c). \<lparr>keyword = k, count = c\<rparr>)
         (objectEntries (aggregateHits (scoreTable env s (G @ T)))))"
  by (simp add: analyzeText_def Let_def scoreTable_append)

text \<open>
  When all counts are numbers, the sort of the aggregate hit list is the stable sort by
  descending number.
\<close>

lemma sortByCount_numbers:
  assumes "\<forall>h \<in> set hitList. \<exists>n. count h = Num n"
  shows "sortByCount env hitList
         = arraySort (\<lambda>a b. int (numberOf (count b)) - int (numberOf (count a))) hitList"
proof -
  have cmp: "byCount a b = Some (int (numberOf (count b)) - int (numberOf (count a)))"
    if "a \<in> set hitList" and "b \<in> set hitList" for a b
  proof -
    from that assms obtain x y where "count a = Num x" and "count b = Num y" by blast
    then show ?thesis by (simp add: byCount_def numberOf_def)
  qed
  then have "list_all (\<lambda>a. list_all (\<lambda>b. byCount a b \<noteq> None) hitList) hitList"
    by (simp add: list_all_iff)
  moreover have "arraySort (\<lambda>a b. the (byCount a b)) hitList
      = arraySort (\<lambda>a b. int (numberOf (count b)) - int (numberOf (count a))) hitList"
    by (rule arraySort_cong) (simp add: cmp)
  ultimately show ?thesis by (simp add: sortByCount_def)
qed

subsection \<open>The result of a run\<close>

text \<open>
  A run that returns a result returns the analysis of the extracted text, which is not
  empty after trimming.
\<close>

lemma analyzeEpub_result:
  assumes "analyzeEpub env genreTable tagTable zipArchive = Inr r"
  shows "\<exists>fullTextContent. r = analyzeText env fullTextContent genreTable tagTable
           \<and> trim fullTextContent \<noteq> []"
proof -
  from assms obtain opfPath opfXmlStr fullTextContent
    where "extractText env zipArchive opfPath
             (buildManifest (manifest_items (parseXml env opfXmlStr)) [])
             (spine_idrefs (parseXml env opfXmlStr)) = Inr fullTextContent"
      and r: "r = analyzeText env fullTextContent genreTable tagTable"
    by (auto simp: analyzeEpub_def Let_def split: sum.splits option.splits)
  then have "trim fullTextContent \<noteq> []"
    by (auto simp: extractText_def split: sum.splits if_splits)
  with r show ?thesis by blast
qed

section \<open>The aggregate hit list\<close>

text \<open>
  For tables of which no keyword names a member of \<open>Object.prototype\<close>, the aggregate
  hit list holds every keyword at most once, and it holds exactly the entries of a
  keyword \<open>k\<close> with the count \<open>n\<close> such that \<open>n\<close> is the sum, over all categories of
  the genre table and of the tag table, of the count of \<open>k\<close> in the category, and \<open>n\<close>
  is positive.
\<close>

lemma aggregate_hits_plain_keywords:
  assumes plain: "\<forall>cat \<in> set (G @ T). \<forall>kw \<in> set (snd cat). kw \<notin> set objectPrototypeNames"
  shows "distinct (map keyword (allHits (analyzeText env s G T)))"
    and "set (allHits (analyzeText env s G T)) =
       {\<lparr>keyword = k, count = Num n\<rparr> | k n.
          n = sum_list (map (\<lambda>cat. categoryCount env s cat k) (G @ T)) \<and> 0 < n}"
proof -
  let ?rs = "scoreTable env s (G @ T)"
  let ?m = "aggregateHits ?rs"
  let ?mk = "\<lambda>(k, c). \<lparr>keyword = k, count = c\<rparr>"
  let ?total = "\<lambda>k. sum_list (map (\<lambda>r. hitCount (hits r) k) ?rs)"
  let ?sum = "\<lambda>k. sum_list (map (\<lambda>cat. categoryCount env s cat k) (G @ T))"
  have enc: "\<forall>k \<in> set (encountered ?rs). k \<notin> set objectPrototypeNames"
    using plain by (auto simp: set_encountered dest!: scoreTable_hits_keywords)
  have d: "\<forall>r \<in> set ?rs. distinct (map fst (hits r))"
    by (blast intro: scoreTable_hits_distinct)
  have p: "\<forall>r \<in> set ?rs. \<forall>e \<in> set (hits r). 1 \<le> snd e"
    by (blast dest: scoreTable_hits_positive)
  have np: "\<forall>r \<in> set ?rs. protoName \<notin> fst ` set (hits r)"
    by (blast dest: scoreTable_hits_no_proto)
  have nums: "allNumbers ?m" and total: "aggregateCount ?m k = ?total k" for k
    by (rule aggregateHits_numbers [OF enc d])+
  have dm: "distinct (map fst ?m)" by (rule distinct_aggregateHits)
  have keys: "map fst ?m = encountered ?rs" by (rule keys_aggregateHits [OF np])
  have counts: "\<forall>h \<in> set (map ?mk (objectEntries ?m)). \<exists>n. count h = Num n"
  proof
    fix h assume "h \<in> set (map ?mk (objectEntries ?m))"
    then obtain k c where "(k, c) \<in> set ?m" and h: "h = \<lparr>keyword = k, count = c\<rparr>"
      by (auto simp: set_objectEntries)
    with nums show "\<exists>n. count h = Num n"
      by (cases c) (auto simp: allNumbers_def list_all_iff)
  qed
  have sorted: "allHits (analyzeText env s G T)
      = arraySort (\<lambda>a b. int (numberOf (count b)) - int (numberOf (count a)))
          (map ?mk (objectEntries ?m))"
    by (simp only: allHits_analyzeText sortByCount_numbers [OF counts])
  have kw_of: "map keyword (map ?mk es) = map fst es" for es :: "(js_string \<times> hit_count) list"
    by (induction es) auto
  have "distinct (map fst (objectEntries ?m))"
    by (intro distinct_objectEntries dm)
  then have dk: "distinct (map keyword (map ?mk (objectEntries ?m)))"
    by (simp only: kw_of)
  have "mset (allHits (analyzeText env s G T)) = mset (map ?mk (objectEntries ?m))"
    by (simp only: sorted mset_arraySort)
  then have "mset (map keyword (allHits (analyzeText env s G T)))
      = mset (map keyword (map ?mk (objectEntries ?m)))"
    by (simp only: mset_map)
  from mset_eq_imp_distinct_iff [OF this] dk
  show "distinct (map keyword (allHits (analyzeText env s G T)))" by blast
  have entry: "(k, c) \<in> set ?m \<longleftrightarrow> map_of ?m k = Some c" for k c
    using dm by simp
  have key_pos: "0 < ?total k" if "k \<in> fst ` set ?m" for k
  proof -
    from that have "k \<in> set (encountered ?rs)" by (metis keys list.set_map)
    then obtain r where r: "r \<in> set ?rs" and "k \<in> fst ` set (hits r)"
      by (auto simp: set_encountered)
    then obtain n where e: "(k, n) \<in> set (hits r)" by auto
    with d r have "map_of (hits r) k = Some n" by simp
    moreover from p r e have "1 \<le> n" by fastforce
    ultimately have "1 \<le> hitCount (hits r) k" by (simp add: hitCount_def)
    moreover from r have "hitCount (hits r) k \<le> ?total k"
      by (rule le_sum_list_map)
    ultimately show ?thesis by simp
  qed
  have sums: "?total k = ?sum k" for k
  proof (cases "k = protoName")
    case False
    then show ?thesis by (rule scoreTable_hitCount)
  next
    case True
    have "hitCount (hits r) k = 0" if "r \<in> set ?rs" for r
    proof -
      from np that have "protoName \<notin> fst ` set (hits r)" ..
      with True have "k \<notin> fst ` set (hits r)" by simp
      then have "map_of (hits r) k = None" by (simp add: map_of_eq_None_iff)
      then show ?thesis by (simp add: hitCount_def)
    qed
    then have "?total k = 0" by simp
    moreover have "categoryCount env s cat k = 0" if "cat \<in> set (G @ T)" for cat
      using that plain True protoName_member by (auto simp: categoryCount_def)
    then have "?sum k = 0" by simp
    ultimately show ?thesis by linarith
  qed
  have m: "set ?m = {(k, Num n) | k n. n = ?total k \<and> 0 < n}"
  proof (intro set_eqI iffI; clarify)
    fix k c assume in_m: "(k, c) \<in> set ?m"
    with nums obtain n where c: "c = Num n"
      by (cases c) (auto simp: allNumbers_def list_all_iff)
    from in_m have "map_of ?m k = Some c" and "k \<in> fst ` set ?m"
      by (simp add: entry, force)
    then have "n = aggregateCount ?m k" and "0 < ?total k"
      by (simp add: aggregateCount_def c, simp add: key_pos)
    then show "\<exists>k' n'. (k, c) = (k', Num n') \<and> n' = ?total k' \<and> 0 < n'"
      by (simp add: total c)
  next
    fix k assume "0 < ?total k"
    then have pos: "0 < aggregateCount ?m k" by (simp add: total)
    then obtain c where c: "map_of ?m k = Some c"
      by (cases "map_of ?m k") (simp_all add: aggregateCount_def)
    with pos obtain n where "c = Num n"
      by (cases c) (simp_all add: aggregateCount_def)
    with c have "map_of ?m k = Some (Num (aggregateCount ?m k))"
      by (simp add: aggregateCount_def)
    then show "(k, Num (?total k)) \<in> set ?m" by (simp add: entry total)
  qed
  have "set (allHits (analyzeText env s G T)) = ?mk ` set ?m"
    by (simp add: sorted set_arraySort set_objectEntries)
  also have "\<dots> = {\<lparr>keyword = k, count = Num n\<rparr> | k n. n = ?total k \<and> 0 < n}"
    unfolding m by force
  finally show "set (allHits (analyzeText env s G T)) =
       {\<lparr>keyword = k, count = Num n\<rparr> | k n. n = ?sum k \<and> 0 < n}"
    by (simp only: sums)
qed

text \<open>
  An example: \<open>magic\<close> occurs twice in the text and is listed in a genre and in a tag,
  so its one aggregate entry has the count 4.
\<close>

lemma aggregate_hits_example:
  "allHits (analyzeText env (str ''magic and more magic'')
      [(str ''Fantasy'', [str ''magic''])] [(str ''Magic System'', [str ''spell'', str ''magic''])])
   = [\<lparr>keyword = str ''magic'', count = Num 4\<rparr>]"
  by code_simp

text \<open>
  C2. The aggregate hit list is to hold one entry per keyword with a positive count,
  with the sum of its counts. The code does so for the keywords that name no member of
  \<open>Object.prototype\<close> (lemma \<open>aggregate_hits_plain_keywords\<close>), and not for the others,
  since \<open>hits\<close> and \<open>allHitsMap\<close> are objects created by \<^verbatim>\<open>{}\<close>. The keyword
  \<^verbatim>\<open>__proto__\<close> occurs once in the text and counts for the score of its category, and
  neither \<open>hits\<close> nor the aggregate hit list has an entry for it. The keyword
  \<open>constructor\<close> occurs once, and its entry in the aggregate map is not the number 1
  but the text of the inherited member followed by the numeral 1. This holds in every
  browser.
\<close>

theorem aggregate_hits_prototype_keys:
  "keywordCount env (str ''__proto__'') (str ''__proto__'') = 1
   \<and> analyzeText env (str ''__proto__'') [(str ''Family'', [str ''__proto__''])] []
       = \<lparr>genres = [\<lparr>category = str ''Family'', score = 1, hits = []\<rparr>], tags = [], allHits = []\<rparr>
   \<and> keywordCount env (str ''constructor'') (str ''constructor'') = 1
   \<and> aggregateHits (scoreTable env (str ''constructor'') [(str ''Work'', [str ''constructor''])])
       = [(str ''constructor'', MemberText (str ''constructor'') [1])]"
  by code_simp

section \<open>Which categories are returned\<close>

text \<open>
  C3 (as amended). For every text and every table, the scorer returns the categories
  that have a matched keyword, in the order of the table, and only those: a category is
  returned if and only if its total score, the sum of the counts of its keywords, is
  positive, and every returned result has a positive score. The same categories stand
  in the genre and tag sequences of the analysis result.
\<close>

theorem scored_categories:
  "map category (scoreTable env s table) = map fst (filter (matched env s) table)
   \<and> (\<forall>r \<in> set (scoreTable env s table). 0 < score r)
   \<and> (\<forall>cat. matched env s cat \<longleftrightarrow> 0 < sum_list (map (keywordCount env s) (snd cat)))
   \<and> category ` set (genres (analyzeText env s G T)) = fst ` {cat \<in> set G. matched env s cat}
   \<and> category ` set (tags (analyzeText env s G T)) = fst ` {cat \<in> set T. matched env s cat}"
proof (intro conjI ballI allI)
  show "map category (scoreTable env s table) = map fst (filter (matched env s) table)"
    by (rule scoreTable_categories)
next
  fix r assume "r \<in> set (scoreTable env s table)"
  then show "0 < score r" by (rule scoreTable_score_pos)
next
  fix cat
  show "matched env s cat \<longleftrightarrow> 0 < sum_list (map (keywordCount env s) (snd cat))"
    using scoreKeywords_total_pos [of env s "snd cat"]
    by (simp add: matched_def scoreKeywords_total)
next
  have "category ` set (scoreTable env s tbl) = fst ` {cat \<in> set tbl. matched env s cat}" for tbl
    using scoreTable_categories [of env s tbl]
    by (metis list.set_map set_filter)
  then show "category ` set (genres (analyzeText env s G T)) = fst ` {cat \<in> set G. matched env s cat}"
    and "category ` set (tags (analyzeText env s G T)) = fst ` {cat \<in> set T. matched env s cat}"
    by (simp_all add: genres_analyzeText tags_analyzeText byScore_eq set_arraySort)
qed

text \<open>
  An instance of the theorem: of two categories, the one whose keyword \<open>spell\<close>
  occurs in the text is returned.
\<close>

theorem scored_categories_witness:
  "map category (scoreTable plainBrowser (str ''The wizard cast a spell of fire.'')
      [(str ''Fantasy'', [str ''magic'', str ''spell'']), (str ''Mecha'', [str ''pilot''])])
   = [str ''Fantasy'']"
proof -
  let ?s = "str ''The wizard cast a spell of fire.''"
  let ?table = "[(str ''Fantasy'', [str ''magic'', str ''spell'']), (str ''Mecha'', [str ''pilot''])]"
  have "map fst (filter (matched plainBrowser ?s) ?table) = [str ''Fantasy'']" by code_simp
  with scored_categories [of plainBrowser ?s ?table] show ?thesis by (simp only:)
qed

text \<open>
  C3 as stated fails: the category \<open>Mecha\<close> of the table has the total score 0 and is
  not among the results; a table of which no keyword occurs gives no result at all.
\<close>

theorem scored_categories_counterexample:
  "str ''Mecha''
     \<in> fst ` set [(str ''Fantasy'', [str ''magic'', str ''spell'']), (str ''Mecha'', [str ''pilot''])]
   \<and> str ''Mecha''
     \<notin> category ` set (scoreTable plainBrowser (str ''The wizard cast a spell of fire.'')
          [(str ''Fantasy'', [str ''magic'', str ''spell'']), (str ''Mecha'', [str ''pilot''])])
   \<and> genres (analyzeText plainBrowser (str ''A quiet day.'') [(str ''Mecha'', [str ''pilot''])] []) = []"
  by code_simp

section \<open>Score and hits of a category\<close>

lemma scoreTable_sum_hits:
  assumes "r \<in> set (scoreTable env s table)"
  shows "\<exists>cat \<in> set table. category r = fst cat
           \<and> score r = sum_list (map (keywordCount env s) (snd cat))
           \<and> (protoName \<notin> set (snd cat) \<longrightarrow>
                sum_list (map snd (hits r))
                  = sum_list (map (keywordCount env s) (remdups (snd cat)))
                \<and> (distinct (snd cat) \<longrightarrow> score r = sum_list (map snd (hits r))))"
proof -
  from assms obtain cat where cat: "cat \<in> set table"
    and r: "r = \<lparr>category = fst cat,
                 score = snd (scoreKeywords env s (snd cat) ([], 0)),
                 hits = fst (scoreKeywords env s (snd cat) ([], 0))\<rparr>"
    by (auto simp: scoreTable_eq)
  have "filter (\<lambda>kw. kw \<noteq> protoName) (snd cat) = snd cat" if "protoName \<notin> set (snd cat)"
    using that by (simp add: filter_id_conv) metis
  then have once: "sum_list (map snd (fst (scoreKeywords env s (snd cat) ([], 0))))
        = sum_list (map (keywordCount env s) (remdups (snd cat)))"
    if "protoName \<notin> set (snd cat)"
    using that by (simp add: scoreKeywords_sum)
  have total: "score r = sum_list (map (keywordCount env s) (snd cat))"
    by (simp add: r scoreKeywords_total)
  have "protoName \<notin> set (snd cat) \<longrightarrow>
          sum_list (map snd (hits r)) = sum_list (map (keywordCount env s) (remdups (snd cat)))
          \<and> (distinct (snd cat) \<longrightarrow> score r = sum_list (map snd (hits r)))"
  proof (intro impI conjI)
    assume np: "protoName \<notin> set (snd cat)"
    from once [OF np] show "sum_list (map snd (hits r))
        = sum_list (map (keywordCount env s) (remdups (snd cat)))"
      by (simp add: r)
    assume "distinct (snd cat)"
    with once [OF np] total show "score r = sum_list (map snd (hits r))"
      by (simp add: r distinct_remdups_id)
  qed
  moreover have "category r = fst cat" by (simp add: r)
  ultimately show ?thesis using cat total by blast
qed

text \<open>
  C9 (as amended). For every result (genre or tag) of the analysis: every count
  recorded in its hits is at least 1, and its score is the sum of the counts of the
  keywords of its category, taken over the keyword list as the table gives it, a
  keyword listed twice counting twice. When the category does not list the keyword
  \<^verbatim>\<open>__proto__\<close>, the counts recorded in its hits add up to the sum of the counts of
  its keywords, each keyword taken once; so the score equals the sum of the counts
  recorded in the hits when, moreover, the category lists no keyword twice.
\<close>

theorem score_and_hits:
  "\<forall>r \<in> set (genres (analyzeText env s G T)) \<union> set (tags (analyzeText env s G T)).
      (\<forall>e \<in> set (hits r). 1 \<le> snd e)
      \<and> (\<exists>cat \<in> set (G @ T). category r = fst cat
            \<and> score r = sum_list (map (keywordCount env s) (snd cat))
            \<and> (protoName \<notin> set (snd cat) \<longrightarrow>
                 sum_list (map snd (hits r))
                   = sum_list (map (keywordCount env s) (remdups (snd cat)))
                 \<and> (distinct (snd cat) \<longrightarrow> score r = sum_list (map snd (hits r)))))"
proof -
  have results: "set (genres (analyzeText env s G T)) \<union> set (tags (analyzeText env s G T))
      = set (scoreTable env s (G @ T))"
    by (simp add: genres_analyzeText tags_analyzeText byScore_eq set_arraySort scoreTable_append)
  show ?thesis
    unfolding results
  proof (intro conjI ballI)
    fix r e assume "r \<in> set (scoreTable env s (G @ T))" and "e \<in> set (hits r)"
    then show "1 \<le> snd e" using scoreTable_hits_positive by blast
  next
    fix r assume "r \<in> set (scoreTable env s (G @ T))"
    then show "\<exists>cat \<in> set (G @ T). category r = fst cat
            \<and> score r = sum_list (map (keywordCount env s) (snd cat))
            \<and> (protoName \<notin> set (snd cat) \<longrightarrow>
                 sum_list (map snd (hits r))
                   = sum_list (map (keywordCount env s) (remdups (snd cat)))
                 \<and> (distinct (snd cat) \<longrightarrow> score r = sum_list (map snd (hits r))))"
      by (rule scoreTable_sum_hits)
  qed
qed

text \<open>
  An instance of the theorem: a category with two different keywords, found twice
  and once, has the score 3 and the hits 2 and 1.
\<close>

theorem score_and_hits_witness:
  "score \<lparr>category = str ''Fantasy'', score = 3, hits = [(str ''magic'', 2), (str ''spell'', 1)]\<rparr>
     = sum_list (map snd (hits \<lparr>category = str ''Fantasy'', score = 3,
                               hits = [(str ''magic'', 2), (str ''spell'', 1)]\<rparr>))
   \<and> genres (analyzeText plainBrowser (str ''Magic spell, magical.'')
        [(str ''Fantasy'', [str ''magic'', str ''spell''])] [])
       = [\<lparr>category = str ''Fantasy'', score = 3, hits = [(str ''magic'', 2), (str ''spell'', 1)]\<rparr>]"
proof -
  let ?s = "str ''Magic spell, magical.''"
  let ?kws = "[str ''magic'', str ''spell'']"
  let ?G = "[(str ''Fantasy'', ?kws)]"
  let ?r = "\<lparr>category = str ''Fantasy'', score = 3, hits = [(str ''magic'', 2), (str ''spell'', 1)]\<rparr>"
  have g: "genres (analyzeText plainBrowser ?s ?G []) = [?r]" by code_simp
  have t: "tags (analyzeText plainBrowser ?s ?G []) = []" by code_simp
  have d: "distinct ?kws" and np: "protoName \<notin> set ?kws" by code_simp+
  from score_and_hits [of plainBrowser ?s ?G "[]"]
  have "\<exists>cat \<in> set (?G @ []). category ?r = fst cat
            \<and> score ?r = sum_list (map (keywordCount plainBrowser ?s) (snd cat))
            \<and> (protoName \<notin> set (snd cat) \<longrightarrow>
                 sum_list (map snd (hits ?r))
                   = sum_list (map (keywordCount plainBrowser ?s) (remdups (snd cat)))
                 \<and> (distinct (snd cat) \<longrightarrow> score ?r = sum_list (map snd (hits ?r))))"
    unfolding g t by simp
  then have "protoName \<notin> set ?kws \<longrightarrow> distinct ?kws \<longrightarrow> score ?r = sum_list (map snd (hits ?r))"
    by simp
  with d np have "score ?r = sum_list (map snd (hits ?r))" by blast
  with g show ?thesis by (simp only:)
qed

text \<open>
  C9 as stated fails when a category lists a keyword twice: \<open>hits\<close> holds the keyword
  once, with the count 1, and the score is 2. It also fails for the keyword
  \<^verbatim>\<open>__proto__\<close>, which adds to the score and is not recorded in \<open>hits\<close>.
\<close>

theorem score_and_hits_counterexample:
  "genres (analyzeText plainBrowser (str ''magic'') [(str ''Fantasy'', [str ''magic'', str ''magic''])] [])
     = [\<lparr>category = str ''Fantasy'', score = 2, hits = [(str ''magic'', 1)]\<rparr>]
   \<and> sum_list (map snd [(str ''magic'', 1::nat)]) \<noteq> 2
   \<and> genres (analyzeText plainBrowser (str ''__proto__'') [(str ''Family'', [str ''__proto__''])] [])
     = [\<lparr>category = str ''Family'', score = 1, hits = []\<rparr>]"
  by code_simp

section \<open>The order of the results\<close>

lemma filter_count_hits:
  fixes m :: "hit_count js_object"
  assumes d: "distinct (map fst m)" and es: "set es = set m"
  shows "map keyword (filter (\<lambda>h. count h = c) (map (\<lambda>(k, c). \<lparr>keyword = k, count = c\<rparr>) es))
         = filter (\<lambda>k. map_of m k = Some c) (map fst es)"
proof -
  have val: "map_of m (fst e) = Some (snd e)" if "e \<in> set m" for e
    using that d by simp
  have "map keyword (filter (\<lambda>h. count h = c) (map (\<lambda>(k, c). \<lparr>keyword = k, count = c\<rparr>) xs))
        = filter (\<lambda>k. map_of m k = Some c) (map fst xs)" if "set xs \<subseteq> set m" for xs
    using that by (induction xs) (auto simp: val)
  with es show ?thesis by simp
qed

lemma enumerationOrder_plain:
  assumes "\<forall>k \<in> set ks. arrayIndex k = None"
  shows "enumerationOrder ks = ks"
proof -
  from assms have "filter (\<lambda>k. arrayIndex k \<noteq> None) ks = []"
    and "filter (\<lambda>k. arrayIndex k = None) ks = ks"
    by (simp_all add: filter_empty_conv)
  then show ?thesis by (simp only: enumerationOrder_def sort_key_simps append_Nil)
qed

text \<open>
  The aggregate hit list when no encountered keyword names a member of
  \<open>Object.prototype\<close>: its counts are numbers in descending order, and the hits of one
  count stand in the order in which \<open>Object.entries\<close> enumerates the aggregate map.
\<close>

lemma allHits_order:
  assumes plain: "\<forall>k \<in> set (encountered (scoreTable env s (G @ T))). k \<notin> set objectPrototypeNames"
  shows "\<exists>ns. map count (allHits (analyzeText env s G T)) = map Num ns
           \<and> sorted_wrt (\<lambda>x y. y \<le> x) ns"
    and "map keyword (filter (\<lambda>h. count h = Num n) (allHits (analyzeText env s G T)))
         = filter (\<lambda>k. map_of (aggregateHits (scoreTable env s (G @ T))) k = Some (Num n))
             (enumerationOrder (encountered (scoreTable env s (G @ T))))"
proof -
  let ?rs = "scoreTable env s (G @ T)"
  let ?m = "aggregateHits ?rs"
  let ?mk = "\<lambda>(k, c). \<lparr>keyword = k, count = c\<rparr>"
  let ?list = "map ?mk (objectEntries ?m)"
  let ?f = "\<lambda>h. numberOf (count h)"
  let ?hs = "allHits (analyzeText env s G T)"
  have d: "\<forall>r \<in> set ?rs. distinct (map fst (hits r))"
    by (blast intro: scoreTable_hits_distinct)
  have np: "\<forall>r \<in> set ?rs. protoName \<notin> fst ` set (hits r)"
    by (blast dest: scoreTable_hits_no_proto)
  have nums: "allNumbers ?m" by (rule aggregateHits_numbers [OF plain d])
  have counts: "\<forall>h \<in> set ?list. \<exists>n. count h = Num n"
  proof
    fix h assume "h \<in> set ?list"
    then obtain k c where "(k, c) \<in> set ?m" and h: "h = \<lparr>keyword = k, count = c\<rparr>"
      by (auto simp: set_objectEntries)
    with nums show "\<exists>n. count h = Num n"
      by (cases c) (auto simp: allNumbers_def list_all_iff)
  qed
  have sorted: "?hs = arraySort (\<lambda>a b. int (?f b) - int (?f a)) ?list"
    by (simp only: allHits_analyzeText sortByCount_numbers [OF counts])
  have "set ?hs = set ?list" by (simp only: sorted set_arraySort)
  with counts have number: "\<exists>x. count h = Num x" if "h \<in> set ?hs" for h
    using that by blast
  have num_iff: "count h = Num x \<longleftrightarrow> ?f h = x" if "\<exists>y. count h = Num y" for h x
    using that by (auto simp: numberOf_def)
  have "map count ?hs = map (\<lambda>h. Num (?f h)) ?hs"
  proof (rule map_cong [OF refl])
    fix h assume "h \<in> set ?hs"
    from num_iff [OF number [OF this], of "?f h"] show "count h = Num (?f h)" by simp
  qed
  then have "map count ?hs = map Num (map ?f ?hs)"
    by (simp only: map_map comp_def)
  moreover have "sorted_wrt (\<lambda>x y. y \<le> x) (map ?f ?hs)"
    unfolding sorted_wrt_map sorted by (rule arraySort_descending)
  ultimately show "\<exists>ns. map count ?hs = map Num ns \<and> sorted_wrt (\<lambda>x y. y \<le> x) ns"
    by blast
  have "filter (\<lambda>h. count h = Num n) ?hs = filter (\<lambda>h. ?f h = n) ?hs"
    by (rule filter_cong [OF refl]) (rule num_iff, rule number)
  also have "\<dots> = filter (\<lambda>h. ?f h = n) ?list"
    unfolding sorted by (rule arraySort_stable)
  also have "\<dots> = filter (\<lambda>h. count h = Num n) ?list"
    by (rule filter_cong [OF refl]) (rule num_iff [symmetric], use counts in blast)
  finally have "filter (\<lambda>h. count h = Num n) ?hs = filter (\<lambda>h. count h = Num n) ?list" .
  moreover have "map keyword (filter (\<lambda>h. count h = Num n) ?list)
      = filter (\<lambda>k. map_of ?m k = Some (Num n)) (map fst (objectEntries ?m))"
    by (intro filter_count_hits distinct_aggregateHits set_objectEntries)
  ultimately show "map keyword (filter (\<lambda>h. count h = Num n) ?hs)
         = filter (\<lambda>k. map_of ?m k = Some (Num n)) (enumerationOrder (encountered ?rs))"
    by (simp only: keys_objectEntries keys_aggregateHits [OF np])
qed

text \<open>
  C8 (as amended). In the analysis result the genre and the tag results are in
  descending order of score, and the two sorts are stable: the results of one score
  stand in the order in which the scorer produced them, which is the order of their
  categories in the table. When no encountered keyword names a member of
  \<open>Object.prototype\<close>, the counts of the aggregate hits are numbers in descending
  order, and the sort is stable: the aggregate hits of one count stand in the order in
  which \<open>Object.entries\<close> enumerates the aggregate map, that is, keywords that are
  array indices first, in ascending numeric order, and then the other keywords in the
  order in which they were first encountered. When no encountered keyword is an array
  index, this is the order of first encounter.
\<close>

theorem results_order:
  "(let r = analyzeText env s G T;
        gs = scoreTable env s G;
        ts = scoreTable env s T;
        m = aggregateHits (gs @ ts)
    in sorted_wrt (\<lambda>a b. score b \<le> score a) (genres r)
     \<and> sorted_wrt (\<lambda>a b. score b \<le> score a) (tags r)
     \<and> (\<forall>n. filter (\<lambda>a. score a = n) (genres r) = filter (\<lambda>a. score a = n) gs)
     \<and> (\<forall>n. filter (\<lambda>a. score a = n) (tags r) = filter (\<lambda>a. score a = n) ts)
     \<and> map category gs = map fst (filter (matched env s) G)
     \<and> map category ts = map fst (filter (matched env s) T)
     \<and> ((\<forall>k \<in> set (encountered (gs @ ts)). k \<notin> set objectPrototypeNames) \<longrightarrow>
            (\<exists>ns. map count (allHits r) = map Num ns \<and> sorted_wrt (\<lambda>x y. y \<le> x) ns)
            \<and> (\<forall>n. map keyword (filter (\<lambda>h. count h = Num n) (allHits r))
                   = filter (\<lambda>k. map_of m k = Some (Num n))
                       (enumerationOrder (encountered (gs @ ts)))))
     \<and> ((\<forall>k \<in> set (encountered (gs @ ts)). arrayIndex k = None) \<longrightarrow>
            enumerationOrder (encountered (gs @ ts)) = encountered (gs @ ts)))"
proof -
  let ?enc = "encountered (scoreTable env s G @ scoreTable env s T)"
  show ?thesis
    unfolding Let_def
  proof (intro conjI allI impI)
    show "sorted_wrt (\<lambda>a b. score b \<le> score a) (genres (analyzeText env s G T))"
      and "sorted_wrt (\<lambda>a b. score b \<le> score a) (tags (analyzeText env s G T))"
      unfolding genres_analyzeText tags_analyzeText byScore_eq by (rule arraySort_descending)+
    show "filter (\<lambda>a. score a = n) (genres (analyzeText env s G T))
          = filter (\<lambda>a. score a = n) (scoreTable env s G)" for n
      unfolding genres_analyzeText byScore_eq by (rule arraySort_stable)
    show "filter (\<lambda>a. score a = n) (tags (analyzeText env s G T))
          = filter (\<lambda>a. score a = n) (scoreTable env s T)" for n
      unfolding tags_analyzeText byScore_eq by (rule arraySort_stable)
    show "map category (scoreTable env s G) = map fst (filter (matched env s) G)"
      and "map category (scoreTable env s T) = map fst (filter (matched env s) T)"
      by (rule scoreTable_categories)+
    show "enumerationOrder ?enc = ?enc" if "\<forall>k \<in> set ?enc. arrayIndex k = None"
      using that by (rule enumerationOrder_plain)
  next
    assume "\<forall>k \<in> set ?enc. k \<notin> set objectPrototypeNames"
    then have plain: "\<forall>k \<in> set (encountered (scoreTable env s (G @ T))). k \<notin> set objectPrototypeNames"
      by (simp only: scoreTable_append)
    from allHits_order(1) [OF plain]
    show "\<exists>ns. map count (allHits (analyzeText env s G T)) = map Num ns
            \<and> sorted_wrt (\<lambda>x y. y \<le> x) ns" .
    from allHits_order(2) [OF plain]
    show "map keyword (filter (\<lambda>h. count h = Num n) (allHits (analyzeText env s G T)))
          = filter (\<lambda>k. map_of (aggregateHits (scoreTable env s G @ scoreTable env s T)) k
                          = Some (Num n)) (enumerationOrder ?enc)" for n
      by (simp only: scoreTable_append)
  qed
qed

text \<open>
  An instance of the theorem: three keywords with the count 1, none of them an array
  index or the name of a member of \<open>Object.prototype\<close>, stand in the aggregate hit
  list in the order of their first encounter.
\<close>

theorem results_order_witness:
  "map keyword (filter (\<lambda>h. count h = Num 1)
     (allHits (analyzeText plainBrowser (str ''orc, elf and troll'')
        [(str ''Mythical Creatures'', [str ''troll'', str ''elf'']), (str ''Warfare'', [str ''orc''])]
        [])))
     = [str ''troll'', str ''elf'', str ''orc'']
   \<and> enumerationOrder (encountered
        (scoreTable plainBrowser (str ''orc, elf and troll'')
           [(str ''Mythical Creatures'', [str ''troll'', str ''elf'']), (str ''Warfare'', [str ''orc''])]
         @ scoreTable plainBrowser (str ''orc, elf and troll'') []))
       = [str ''troll'', str ''elf'', str ''orc'']"
proof -
  let ?s = "str ''orc, elf and troll''"
  let ?G = "[(str ''Mythical Creatures'', [str ''troll'', str ''elf'']), (str ''Warfare'', [str ''orc''])]"
  let ?rs = "scoreTable plainBrowser ?s ?G @ scoreTable plainBrowser ?s []"
  let ?ks = "[str ''troll'', str ''elf'', str ''orc'']"
  have enc: "encountered ?rs = ?ks" by code_simp
  have plain: "\<forall>k \<in> set (encountered ?rs). arrayIndex k = None"
    unfolding enc by code_simp
  have members: "\<forall>k \<in> set (encountered ?rs). k \<notin> set objectPrototypeNames"
    unfolding enc by code_simp
  have ones: "filter (\<lambda>k. map_of (aggregateHits ?rs) k = Some (Num 1)) ?ks = ?ks"
    by code_simp
  from results_order [of plainBrowser ?s ?G "[]"]
  have hits: "(\<forall>k \<in> set (encountered ?rs). k \<notin> set objectPrototypeNames) \<longrightarrow>
      (\<forall>n. map keyword (filter (\<lambda>h. count h = Num n) (allHits (analyzeText plainBrowser ?s ?G [])))
            = filter (\<lambda>k. map_of (aggregateHits ?rs) k = Some (Num n))
                (enumerationOrder (encountered ?rs)))"
    and order: "(\<forall>k \<in> set (encountered ?rs). arrayIndex k = None) \<longrightarrow>
            enumerationOrder (encountered ?rs) = encountered ?rs"
    unfolding Let_def by blast+
  from order plain have eo: "enumerationOrder (encountered ?rs) = ?ks"
    unfolding enc by blast
  from hits members
  have "map keyword (filter (\<lambda>h. count h = Num 1) (allHits (analyzeText plainBrowser ?s ?G [])))
      = filter (\<lambda>k. map_of (aggregateHits ?rs) k = Some (Num 1)) (enumerationOrder (encountered ?rs))"
    by blast
  with eo ones show ?thesis by (simp only:)
qed

text \<open>
  C8 as stated fails for a keyword that is an array index: \<open>b\<close> is encountered before
  \<open>7\<close>, both have the count 1, and the aggregate hit list holds \<open>7\<close> before \<open>b\<close>. It
  also fails for a keyword that names a member of \<open>Object.prototype\<close>: the count of
  \<open>constructor\<close> is not a number, and the comparison of another hit with it yields
  \<open>NaN\<close>.
\<close>

theorem results_order_counterexample:
  "encountered (scoreTable plainBrowser (str ''b 7'') [(str ''G1'', [str ''b'']), (str ''G2'', [str ''7''])]
                @ scoreTable plainBrowser (str ''b 7'') [])
     = [str ''b'', str ''7'']
   \<and> allHits (analyzeText plainBrowser (str ''b 7'') [(str ''G1'', [str ''b'']), (str ''G2'', [str ''7''])] [])
     = [\<lparr>keyword = str ''7'', count = Num 1\<rparr>, \<lparr>keyword = str ''b'', count = Num 1\<rparr>]
   \<and> aggregateHits (scoreTable plainBrowser (str ''a constructor b b'')
          [(str ''G'', [str ''a'', str ''constructor'', str ''b''])])
     = [(str ''a'', Num 1), (str ''constructor'', MemberText (str ''constructor'') [1]),
        (str ''b'', Num 2)]
   \<and> byCount \<lparr>keyword = str ''a'', count = Num 1\<rparr>
        \<lparr>keyword = str ''constructor'', count = MemberText (str ''constructor'') [1]\<rparr> = None"
  by code_simp

section \<open>The manifest\<close>

lemma str_includes_iff: "str_includes s n \<longleftrightarrow> (\<exists>pre suf. s = pre @ n @ suf)"
proof (induction s)
  case Nil
  show ?case by auto
next
  case (Cons c cs)
  have "take (length n) (c # cs) = n \<longleftrightarrow> (\<exists>suf. c # cs = n @ suf)"
    by (metis append_eq_conv_conj append_take_drop_id)
  moreover have "(\<exists>pre suf. c # cs = pre @ n @ suf)
      \<longleftrightarrow> (\<exists>suf. c # cs = n @ suf) \<or> (\<exists>pre suf. cs = pre @ n @ suf)"
  proof
    assume "\<exists>pre suf. c # cs = pre @ n @ suf"
    then obtain pre suf where eq: "c # cs = pre @ n @ suf" by blast
    show "(\<exists>suf. c # cs = n @ suf) \<or> (\<exists>pre suf. cs = pre @ n @ suf)"
    proof (cases pre)
      case Nil
      with eq show ?thesis by auto
    next
      case (Cons p ps)
      with eq have "cs = ps @ n @ suf" by simp
      then show ?thesis by blast
    qed
  next
    assume "(\<exists>suf. c # cs = n @ suf) \<or> (\<exists>pre suf. cs = pre @ n @ suf)"
    then show "\<exists>pre suf. c # cs = pre @ n @ suf"
    proof
      assume "\<exists>suf. c # cs = n @ suf"
      then show ?thesis by (metis append_Nil)
    next
      assume "\<exists>pre suf. cs = pre @ n @ suf"
      then show ?thesis by (metis append_Cons)
    qed
  qed
  ultimately show ?case using Cons.IH by simp
qed

lemma includes_xhtml_html: "str_includes m (str ''xhtml'') \<Longrightarrow> str_includes m (str ''html'')"
proof -
  assume "str_includes m (str ''xhtml'')"
  then obtain pre suf where "m = pre @ str ''xhtml'' @ suf" by (auto simp: str_includes_iff)
  then have "m = (pre @ str ''x'') @ str ''html'' @ suf" by (simp add: str_def)
  then show ?thesis unfolding str_includes_iff by blast
qed

lemma collected_iff:
  "collected item \<longleftrightarrow>
     (\<exists>i h m pre suf. item_id item = Some i \<and> i \<noteq> [] \<and> item_href item = Some h \<and> h \<noteq> []
        \<and> item_media_type item = Some m \<and> m = pre @ str ''html'' @ suf)"
proof -
  have "str_includes m (str ''html'') \<or> str_includes m (str ''xhtml'') \<longleftrightarrow> (\<exists>pre suf. m = pre @ str ''html'' @ suf)"
    for m
    using includes_xhtml_html [of m] by (auto simp: str_includes_iff [of m "str ''html''"])
  then show ?thesis
    by (cases "item_id item"; cases "item_href item"; cases "item_media_type item")
       (simp_all add: collected_def truthy_def)
qed

lemma buildManifest_filter:
  "buildManifest items M = buildManifest (filter collected items) M"
  by (induction items arbitrary: M) auto

lemma keys_buildManifest:
  "fst ` set (buildManifest items M)
     = fst ` set M
       \<union> {i. i \<noteq> protoName \<and> (\<exists>item \<in> set items. collected item \<and> item_id item = Some i)}"
proof (induction items arbitrary: M)
  case Nil
  show ?case by simp
next
  case (Cons item items)
  let ?rest = "{i. i \<noteq> protoName \<and> (\<exists>item \<in> set items. collected item \<and> item_id item = Some i)}"
  show ?case
  proof (cases "collected item")
    case True
    then obtain i where i: "item_id item = Some i" by (auto simp: collected_iff)
    show ?thesis
    proof (cases "i = protoName")
      case proto: True
      then have "buildManifest (item # items) M = buildManifest items M"
        using True i by (simp add: objSet_def)
      moreover have "{j. j \<noteq> protoName \<and> (\<exists>it \<in> set (item # items). collected it \<and> item_id it = Some j)}
          = ?rest"
        using i proto by auto
      ultimately show ?thesis using Cons.IH [of M] by (simp only:)
    next
      case other: False
      let ?M = "objSet i (the (item_href item)) M"
      have "buildManifest (item # items) M = buildManifest items ?M"
        using True i by simp
      moreover have "fst ` set (buildManifest items ?M) = fst ` set ?M \<union> ?rest" by (rule Cons.IH)
      moreover have "fst ` set ?M = insert i (fst ` set M)"
      proof -
        have "set (map fst ?M) = insert i (set (map fst M))"
          unfolding keys_objSet using other by auto
        then show ?thesis by (simp only: set_map)
      qed
      moreover have "{j. j \<noteq> protoName \<and> (\<exists>it \<in> set (item # items). collected it \<and> item_id it = Some j)}
          = insert i ?rest"
        using True i other by auto
      ultimately show ?thesis by (simp only: Un_insert_left Un_insert_right)
    qed
  next
    case False
    with Cons.IH [of M] show ?thesis by auto
  qed
qed

text \<open>
  C4 (as amended). A manifest item is collected if and only if its id and its href are
  present and not empty and its media type is present and contains the substring
  \<open>html\<close>, letter case respected (every media type that contains \<open>xhtml\<close> contains
  \<open>html\<close>). The items that fail this condition are dropped without any error: the
  manifest map is the one built from the collected items alone, and an id other than
  \<^verbatim>\<open>__proto__\<close> is a key of the map if and only if it is the id of a collected item.
\<close>

theorem manifest_collection:
  "(collected item \<longleftrightarrow>
      (\<exists>i h m pre suf. item_id item = Some i \<and> i \<noteq> [] \<and> item_href item = Some h \<and> h \<noteq> []
         \<and> item_media_type item = Some m \<and> m = pre @ str ''html'' @ suf))
   \<and> buildManifest items M = buildManifest (filter collected items) M
   \<and> (i \<noteq> protoName \<longrightarrow>
        (i \<in> fst ` set (buildManifest items [])
           \<longleftrightarrow> (\<exists>item \<in> set items. collected item \<and> item_id item = Some i)))"
  using collected_iff [of item] buildManifest_filter [of items M]
    keys_buildManifest [of items "[]"]
  by simp

text \<open>
  An instance of the theorem: of a style sheet and a chapter of media type
  \<open>application/xhtml+xml\<close>, the chapter is collected.
\<close>

theorem manifest_collection_witness:
  "collected (xhtmlItem ''c1'' ''ch1.xhtml'')
   \<and> str ''c1'' \<in> fst ` set (buildManifest
        [\<lparr>item_id = Some (str ''css''), item_href = Some (str ''style.css''),
          item_media_type = Some (str ''text/css'')\<rparr>,
         xhtmlItem ''c1'' ''ch1.xhtml''] [])"
proof -
  let ?css = "\<lparr>item_id = Some (str ''css''), item_href = Some (str ''style.css''),
                item_media_type = Some (str ''text/css'')\<rparr>"
  let ?c1 = "xhtmlItem ''c1'' ''ch1.xhtml''"
  note facts = manifest_collection [of ?c1 "[?css, ?c1]" "[]" "str ''c1''"]
  have "\<exists>i h m pre suf. item_id ?c1 = Some i \<and> i \<noteq> [] \<and> item_href ?c1 = Some h \<and> h \<noteq> []
         \<and> item_media_type ?c1 = Some m \<and> m = pre @ str ''html'' @ suf"
    unfolding xhtmlItem_def
    by (intro exI [of _ "str ''c1''"] exI [of _ "str ''ch1.xhtml''"]
          exI [of _ "str ''application/xhtml+xml''"]
          exI [of _ "str ''application/x''"] exI [of _ "str ''+xml''"]) (simp add: str_def)
  with facts have c: "collected ?c1" by blast
  then have "\<exists>item \<in> set [?css, ?c1]. collected item \<and> item_id item = Some (str ''c1'')"
    by (simp add: xhtmlItem_def)
  moreover have "str ''c1'' \<noteq> protoName" by (simp add: str_def)
  ultimately have "str ''c1'' \<in> fst ` set (buildManifest [?css, ?c1] [])"
    using facts by blast
  with c show ?thesis by simp
qed

text \<open>
  C4 as stated fails: the match is not case-insensitive. An item of media type
  \<open>application/XHTML+XML\<close> is not collected, where the same item with the media type in
  lower case is. An item of the id \<^verbatim>\<open>__proto__\<close> passes the test, and the map has no
  key for it.
\<close>

theorem manifest_collection_counterexample:
  "\<not> collected \<lparr>item_id = Some (str ''c1''), item_href = Some (str ''ch1.xhtml''),
                 item_media_type = Some (str ''application/XHTML+XML'')\<rparr>
   \<and> buildManifest [\<lparr>item_id = Some (str ''c1''), item_href = Some (str ''ch1.xhtml''),
                 item_media_type = Some (str ''application/XHTML+XML'')\<rparr>] [] = []
   \<and> collected \<lparr>item_id = Some (str ''c1''), item_href = Some (str ''ch1.xhtml''),
                 item_media_type = Some (str ''application/xhtml+xml'')\<rparr>
   \<and> collected (xhtmlItem ''__proto__'' ''ch1.xhtml'')
   \<and> buildManifest [xhtmlItem ''__proto__'' ''ch1.xhtml''] [] = []"
  by code_simp

section \<open>Locating the OPF file\<close>

lemma locateOpf_present:
  "zipArchive (str ''META-INF/container.xml'') = Some xml \<Longrightarrow>
   locateOpf env zipArchive =
     (case rootfile_full_paths (parseXml env xml) of
        Some (c # cs) # rest \<Rightarrow> Inr (c # cs)
      | _ \<Rightarrow> Inl RootfilePathNotFound)"
  by (simp add: locateOpf_def split: list.splits option.splits)

text \<open>
  C5 (as amended). The step that locates the OPF file fails with the error of the
  missing container when the archive has no entry \<open>META-INF/container.xml\<close>. When the
  entry exists, the step fails if and only if the first \<open>rootfile\<close> element of the
  parsed document is missing or has no non-empty \<open>full-path\<close>, always with the one error
  of the missing root file path, and otherwise returns that path. Whether the parser
  reported the text as not well-formed has no influence on the result: there is no
  error of its own for a malformed container.
\<close>

theorem container_errors:
  "(zipArchive (str ''META-INF/container.xml'') = None \<longrightarrow>
      locateOpf env zipArchive = Inl ContainerNotFound)
   \<and> (\<forall>xml. zipArchive (str ''META-INF/container.xml'') = Some xml \<longrightarrow>
        (locateOpf env zipArchive = Inl RootfilePathNotFound \<longleftrightarrow>
           \<not> (\<exists>p rest. rootfile_full_paths (parseXml env xml) = Some p # rest \<and> p \<noteq> []))
        \<and> (\<forall>p rest. rootfile_full_paths (parseXml env xml) = Some p # rest \<and> p \<noteq> [] \<longrightarrow>
              locateOpf env zipArchive = Inr p)
        \<and> (\<forall>e. locateOpf env zipArchive = Inl e \<longrightarrow> e = RootfilePathNotFound))
   \<and> locateOpf (env\<lparr>parseXml := \<lambda>str. (parseXml env str)\<lparr>parsererror := b\<rparr>\<rparr>) zipArchive
       = locateOpf env zipArchive"
proof (intro conjI allI impI)
  assume "zipArchive (str ''META-INF/container.xml'') = None"
  then show "locateOpf env zipArchive = Inl ContainerNotFound" by (simp add: locateOpf_def)
next
  fix xml assume xml: "zipArchive (str ''META-INF/container.xml'') = Some xml"
  note loc = locateOpf_present [of zipArchive xml env, OF xml]
  show "locateOpf env zipArchive = Inl RootfilePathNotFound \<longleftrightarrow>
           \<not> (\<exists>p rest. rootfile_full_paths (parseXml env xml) = Some p # rest \<and> p \<noteq> [])"
    by (auto simp: loc split: list.splits option.splits)
  show "locateOpf env zipArchive = Inr p"
    if "rootfile_full_paths (parseXml env xml) = Some p # rest \<and> p \<noteq> []" for p rest
    using that by (auto simp: loc split: list.splits)
  show "e = RootfilePathNotFound" if "locateOpf env zipArchive = Inl e" for e
    using that by (auto simp: loc split: list.splits option.splits)
next
  show "locateOpf (env\<lparr>parseXml := \<lambda>str. (parseXml env str)\<lparr>parsererror := b\<rparr>\<rparr>) zipArchive
       = locateOpf env zipArchive"
    by (cases "zipArchive (str ''META-INF/container.xml'')") (simp_all add: locateOpf_def)
qed

text \<open>An instance of the theorem: the container of the example book names its OPF file.\<close>

theorem container_errors_witness:
  "locateOpf (exampleBrowser (packageDocument [] [])) (exampleArchive []) = Inr (str ''OEBPS/content.opf'')"
proof -
  let ?env = "exampleBrowser (packageDocument [] [])"
  have present: "exampleArchive [] (str ''META-INF/container.xml'') = Some containerXml"
    by (simp add: exampleArchive_def)
  have "rootfile_full_paths (parseXml ?env containerXml) = Some (str ''OEBPS/content.opf'') # []
        \<and> str ''OEBPS/content.opf'' \<noteq> []"
    by code_simp
  with container_errors [of "exampleArchive []" ?env] present show ?thesis by blast
qed

text \<open>
  C5 as stated fails: a container text that is not well-formed, parsed to a document
  that holds the parser's error and no \<open>rootfile\<close> element, fails with the same error as
  a well-formed container without \<open>rootfile\<close> element.
\<close>

theorem container_errors_counterexample:
  "parsererror (parseXml (exampleBrowser \<lparr>parsererror = True, rootfile_full_paths = [],
        manifest_items = [], spine_idrefs = []\<rparr>) (str ''<container><rootfiles>''))
   \<and> locateOpf (exampleBrowser \<lparr>parsererror = True, rootfile_full_paths = [],
        manifest_items = [], spine_idrefs = []\<rparr>)
        [str ''META-INF/container.xml'' \<mapsto> str ''<container><rootfiles>'']
      = Inl RootfilePathNotFound
   \<and> \<not> parsererror (parseXml (exampleBrowser (packageDocument [] [])) (str ''<container/>''))
   \<and> locateOpf (exampleBrowser (packageDocument [] []))
        [str ''META-INF/container.xml'' \<mapsto> str ''<container/>'']
      = Inl RootfilePathNotFound"
  by code_simp

section \<open>Extracting the text of the spine\<close>

text \<open>One turn of the loop, by what the spine reference resolves to.\<close>

lemma extractSpine_step:
  "extractSpine env z opf M (idref # rest) (t, seen) =
     (case resolved env opf M idref of
        None \<Rightarrow> extractSpine env z opf M rest (t, seen)
      | Some (Inl e) \<Rightarrow> Inl e
      | Some (Inr path) \<Rightarrow>
          if path \<in> seen then extractSpine env z opf M rest (t, seen)
          else extractSpine env z opf M rest
                 ((case z path of
                     None \<Rightarrow> t
                   | Some chapterContent \<Rightarrow> t @ getHtmlTextContent env chapterContent @ str '' ''),
                  insert path seen))"
  by (simp add: resolved_def split: sum.splits option.splits)

declare extractSpine.simps(2) [simp del]

lemma extractSpine_append:
  "extractSpine env z opf M (xs @ ys) st =
     (case extractSpine env z opf M xs st of
        Inl e \<Rightarrow> Inl e
      | Inr st' \<Rightarrow> extractSpine env z opf M ys st')"
proof (induction xs arbitrary: st)
  case Nil
  show ?case by simp
next
  case (Cons x xs)
  obtain t seen where st: "st = (t, seen)" by (cases st)
  show ?case
    unfolding st append_Cons extractSpine_step
    by (simp add: Cons.IH split: option.splits sum.splits)
qed

lemma extractSpine_seen_mono:
  "extractSpine env z opf M xs (t, seen) = Inr (t', seen') \<Longrightarrow> seen \<subseteq> seen'"
proof (induction xs arbitrary: t seen)
  case Nil
  then show ?case by simp
next
  case (Cons x xs)
  from Cons.prems show ?case
    unfolding extractSpine_step
    by (auto split: option.splits sum.splits if_splits dest: Cons.IH)
qed

lemma extractSpine_seen_resolved:
  assumes "resolved env opf M x = Some (Inr p)"
    and "extractSpine env z opf M (x # xs) (t, seen) = Inr (t', seen')"
  shows "p \<in> seen'"
  using assms unfolding extractSpine_step
  by (auto split: if_splits dest: extractSpine_seen_mono)

lemma extractSpine_skip:
  assumes "resolved env opf M y = Some (Inr p)" and "p \<in> seen"
  shows "extractSpine env z opf M (y # ys) (t, seen) = extractSpine env z opf M ys (t, seen)"
  using assms unfolding extractSpine_step by simp

lemma extractSpine_repeat:
  assumes x: "resolved env opf M x = Some (Inr p)" and y: "resolved env opf M y = Some (Inr p)"
  shows "extractSpine env z opf M (pre @ x # mid @ y # post) st
         = extractSpine env z opf M (pre @ x # mid @ post) st"
proof (cases "extractSpine env z opf M (pre @ x # mid) st")
  case (Inl e)
  then have "extractSpine env z opf M ((pre @ x # mid) @ ys) st = Inl e" for ys
    by (simp only: extractSpine_append sum.case)
  from this [of "y # post"] this [of post] show ?thesis by simp
next
  case (Inr st')
  obtain t' seen' where st': "st' = (t', seen')" by (cases st')
  obtain t seen where st: "st = (t, seen)" by (cases st)
  have "p \<in> seen'"
  proof (cases "extractSpine env z opf M pre st")
    case Inl
    with Inr show ?thesis by (simp add: extractSpine_append)
  next
    case (Inr st1)
    obtain t1 seen1 where st1: "st1 = (t1, seen1)" by (cases st1)
    from \<open>extractSpine env z opf M (pre @ x # mid) st = Inr st'\<close> Inr
    have "extractSpine env z opf M (x # mid) (t1, seen1) = Inr (t', seen')"
      by (simp add: extractSpine_append st1 st')
    with x show ?thesis by (rule extractSpine_seen_resolved)
  qed
  have "extractSpine env z opf M ((pre @ x # mid) @ ys) st = extractSpine env z opf M ys (t', seen')"
    for ys
    using Inr by (simp only: extractSpine_append sum.case st')
  from this [of "y # post"] this [of post] extractSpine_skip [OF y \<open>p \<in> seen'\<close>]
  show ?thesis by simp
qed

lemma extractSpine_aba:
  "extractSpine env z opf M [a, b, a] st = extractSpine env z opf M [a, b] st"
proof (cases "resolved env opf M a")
  case None
  obtain t seen where st: "st = (t, seen)" by (cases st)
  have skip: "extractSpine env z opf M (a # ys) st' = extractSpine env z opf M ys st'" for ys st'
    using None by (cases st') (simp add: extractSpine_step)
  show ?thesis
  proof (cases "extractSpine env z opf M [b] st")
    case (Inl e)
    have "extractSpine env z opf M ([b] @ [a]) st = Inl e"
      using Inl by (simp only: extractSpine_append sum.case)
    with Inl show ?thesis by (simp add: skip)
  next
    case (Inr st')
    have "extractSpine env z opf M ([b] @ [a]) st = extractSpine env z opf M [a] st'"
      using Inr by (simp only: extractSpine_append sum.case)
    with Inr show ?thesis by (simp add: skip)
  qed
next
  case (Some res)
  show ?thesis
  proof (cases res)
    case (Inl e)
    obtain t seen where st: "st = (t, seen)" by (cases st)
    from Some Inl show ?thesis unfolding st extractSpine_step by simp
  next
    case (Inr p)
    with Some have a: "resolved env opf M a = Some (Inr p)" by simp
    from extractSpine_repeat [OF a a, of z "[]" "[b]" "[]" st] show ?thesis by simp
  qed
qed

text \<open>
  C6. Text extraction deduplicates by resolved archive path: when two references of the
  reading order, with the same id or with different ids, resolve to the same archive
  path, the later one adds nothing, so that the extraction gives the same result as for
  the reading order without the later reference. In particular the reading order
  \<open>[a, b, a]\<close> gives the same result as \<open>[a, b]\<close>, for all \<open>a\<close> and \<open>b\<close>.
\<close>

theorem deduplication_by_path:
  "(resolved env opfPath M x = Some (Inr p) \<and> resolved env opfPath M y = Some (Inr p) \<longrightarrow>
      extractText env z opfPath M (pre @ x # mid @ y # post)
      = extractText env z opfPath M (pre @ x # mid @ post))
   \<and> extractText env z opfPath M [a, b, a] = extractText env z opfPath M [a, b]"
proof (intro conjI impI)
  assume "resolved env opfPath M x = Some (Inr p) \<and> resolved env opfPath M y = Some (Inr p)"
  then have "extractSpine env z opfPath M (pre @ x # mid @ y # post) ([], {})
      = extractSpine env z opfPath M (pre @ x # mid @ post) ([], {})"
    by (intro extractSpine_repeat) simp_all
  then show "extractText env z opfPath M (pre @ x # mid @ y # post)
      = extractText env z opfPath M (pre @ x # mid @ post)"
    by (simp only: extractText_def)
next
  show "extractText env z opfPath M [a, b, a] = extractText env z opfPath M [a, b]"
    by (simp only: extractText_def extractSpine_aba)
qed

text \<open>
  An instance of the theorem: the ids \<open>a\<close> and \<open>c\<close> name the same file, and
  the text of that file stands once in the extracted text.
\<close>

theorem deduplication_by_path_witness:
  "extractText (exampleBrowser (packageDocument [] []))
     (exampleArchive [(''OEBPS/ch1.xhtml'', chapterOne), (''OEBPS/ch2.xhtml'', chapterTwo)])
     (str ''OEBPS/content.opf'')
     (buildManifest [xhtmlItem ''a'' ''ch1.xhtml'', xhtmlItem ''b'' ''ch2.xhtml'',
                     xhtmlItem ''c'' ''ch1.xhtml''] [])
     [Some (str ''a''), Some (str ''b''), Some (str ''c'')]
   = Inr (str ''The wizard cast a spell of fire. The dragon slept. '')"
proof -
  let ?env = "exampleBrowser (packageDocument [] [])"
  let ?z = "exampleArchive [(''OEBPS/ch1.xhtml'', chapterOne), (''OEBPS/ch2.xhtml'', chapterTwo)]"
  let ?M = "buildManifest [xhtmlItem ''a'' ''ch1.xhtml'', xhtmlItem ''b'' ''ch2.xhtml'',
                     xhtmlItem ''c'' ''ch1.xhtml''] []"
  have a: "resolved ?env (str ''OEBPS/content.opf'') ?M (Some (str ''a'')) = Some (Inr (str ''OEBPS/ch1.xhtml''))"
    by code_simp
  have c: "resolved ?env (str ''OEBPS/content.opf'') ?M (Some (str ''c'')) = Some (Inr (str ''OEBPS/ch1.xhtml''))"
    by code_simp
  have ab: "extractText ?env ?z (str ''OEBPS/content.opf'') ?M [Some (str ''a''), Some (str ''b'')]
      = Inr (str ''The wizard cast a spell of fire. The dragon slept. '')"
    by code_simp
  from deduplication_by_path [of ?env "str ''OEBPS/content.opf''" ?M "Some (str ''a'')" "str ''OEBPS/ch1.xhtml''"
      "Some (str ''c'')" ?z "[]" "[Some (str ''b'')]" "[]"] a c
  have "extractText ?env ?z (str ''OEBPS/content.opf'') ?M ([] @ Some (str ''a'') # [Some (str ''b'')] @ Some (str ''c'') # [])
      = extractText ?env ?z (str ''OEBPS/content.opf'') ?M ([] @ Some (str ''a'') # [Some (str ''b'')] @ [])"
    by blast
  with ab show ?thesis by simp
qed

section \<open>No extractable text\<close>

lemma trim_empty_iff: "trim t = [] \<longleftrightarrow> (\<forall>c \<in> set t. isWhiteSpace c)"
proof -
  let ?rest = "dropWhile isWhiteSpace t"
  have "(\<forall>x \<in> set ?rest. isWhiteSpace x) \<longleftrightarrow> ?rest = []"
  proof
    assume all: "\<forall>x \<in> set ?rest. isWhiteSpace x"
    show "?rest = []"
    proof (rule ccontr)
      assume "?rest \<noteq> []"
      then have "\<not> isWhiteSpace (hd ?rest)" and "hd ?rest \<in> set ?rest"
        by (simp_all add: hd_dropWhile)
      with all show False by blast
    qed
  next
    assume e: "?rest = []"
    show "\<forall>x \<in> set ?rest. isWhiteSpace x" unfolding e by simp
  qed
  then show ?thesis by (simp add: trim_def dropWhile_eq_Nil_conv)
qed

lemma chapterFilePath_errors:
  "chapterFilePath env opfPath href = Inl e \<Longrightarrow> e = UrlTypeError \<or> e = URIError"
  by (auto simp: chapterFilePath_def split: option.splits)

lemma extractSpine_errors:
  "extractSpine env z opfPath M xs st = Inl e \<Longrightarrow> e = UrlTypeError \<or> e = URIError"
proof (induction xs arbitrary: st)
  case Nil
  then show ?case by simp
next
  case (Cons x xs)
  obtain t seen where st: "st = (t, seen)" by (cases st)
  from Cons.prems show ?case
    unfolding st extractSpine_step
    by (auto simp: resolved_def split: option.splits sum.splits if_splits
        dest: Cons.IH chapterFilePath_errors)
qed

text \<open>
  A lookup in the empty manifest gives a value only for the name of a member of
  \<open>Object.prototype\<close>; a spine of which no reference is such a name goes through the
  loop without any text.
\<close>

lemma chapterHref_empty:
  "chapterHref env [] idref = None \<longleftrightarrow> idref \<notin> set objectPrototypeNames"
  by (simp add: chapterHref_def objGet_def)

lemma extractSpine_no_manifest:
  assumes "\<forall>idref \<in> set xs. \<forall>k. idref = Some k \<longrightarrow> k \<notin> set objectPrototypeNames"
  shows "extractSpine env z opfPath [] xs st = Inr st"
  using assms
proof (induction xs)
  case Nil
  show ?case by simp
next
  case (Cons x xs)
  obtain t seen where st: "st = (t, seen)" by (cases st)
  have "resolved env opfPath [] x = None"
  proof (cases x)
    case None
    then show ?thesis by (simp add: resolved_def truthy_def)
  next
    case (Some k)
    with Cons.prems have "k \<notin> set objectPrototypeNames" by simp
    then have "chapterHref env [] k = None" by (simp add: chapterHref_empty)
    with Some show ?thesis by (simp add: resolved_def)
  qed
  moreover from Cons.prems
  have "\<forall>idref \<in> set xs. \<forall>k. idref = Some k \<longrightarrow> k \<notin> set objectPrototypeNames"
    by simp
  then have "extractSpine env z opfPath [] xs st = Inr st" by (rule Cons.IH)
  ultimately show ?case
    by (simp add: st extractSpine_step)
qed

lemma buildManifest_none_collected:
  "\<forall>item \<in> set items. \<not> collected item \<Longrightarrow> buildManifest items M = M"
  by (induction items) auto

text \<open>
  The extraction fails with the error of the missing text content if and only if the
  loop has gone through the whole reading order without an exception and the
  concatenated text is empty or holds white space only. A run whose container and OPF
  file are found, whose manifest has no item of an html media type and whose spine
  names no member of \<open>Object.prototype\<close> fails with this error.
\<close>

lemma no_text_content_iff:
  "extractText env z opfPath M spineRefs = Inl NoTextContent \<longleftrightarrow>
      (\<exists>t seen. extractSpine env z opfPath M spineRefs ([], {}) = Inr (t, seen)
         \<and> (\<forall>c \<in> set t. isWhiteSpace c))"
proof (cases "extractSpine env z opfPath M spineRefs ([], {})")
  case (Inl e)
  with extractSpine_errors [OF Inl] show ?thesis by (auto simp: extractText_def)
next
  case (Inr st)
  then show ?thesis
    by (cases st) (auto simp: extractText_def trim_empty_iff)
qed

lemma no_html_items:
  assumes "locateOpf env z = Inr opfPath" and "z opfPath = Some opfXmlStr"
    and "\<forall>item \<in> set (manifest_items (parseXml env opfXmlStr)). \<not> collected item"
    and "\<forall>idref \<in> set (spine_idrefs (parseXml env opfXmlStr)).
           \<forall>k. idref = Some k \<longrightarrow> k \<notin> set objectPrototypeNames"
  shows "analyzeEpub env G T z = Inl NoTextContent"
proof -
  from assms(3) have "buildManifest (manifest_items (parseXml env opfXmlStr)) [] = []"
    by (rule buildManifest_none_collected)
  then have "extractText env z opfPath
      (buildManifest (manifest_items (parseXml env opfXmlStr)) [])
      (spine_idrefs (parseXml env opfXmlStr)) = Inl NoTextContent"
    by (simp add: extractText_def extractSpine_no_manifest [OF assms(4)] trim_def)
  with assms(1,2) show ?thesis
    by (simp add: analyzeEpub_def Let_def)
qed

text \<open>
  Examples: a book whose manifest lists a style sheet only, and a book whose one
  chapter holds a no-break space, an ideographic space and a line separator and nothing
  else, fail with the error of the missing text content.
\<close>

lemma no_text_content_examples:
  "analyzeEpub
     (exampleBrowser (packageDocument
        [\<lparr>item_id = Some (str ''css''), item_href = Some (str ''style.css''),
          item_media_type = Some (str ''text/css'')\<rparr>] [Some (str ''css'')]))
     [(str ''Fantasy'', [str ''magic'', str ''spell''])] []
     (exampleArchive [(''OEBPS/style.css'', str ''p { color: black }'')])
   = Inl NoTextContent
   \<and> trim ([0xA0, 0x3000, 0x2028] @ str '' '') = []
   \<and> analyzeEpub
     (exampleBrowser (packageDocument [xhtmlItem ''c1'' ''ch1.xhtml''] [Some (str ''c1'')]))
     [(str ''Fantasy'', [str ''magic'', str ''spell''])] []
     (exampleArchive
        [(''OEBPS/ch1.xhtml'', str ''<html><body>'' @ [0xA0, 0x3000, 0x2028] @ str ''</body></html>'')])
   = Inl NoTextContent"
  by code_simp

text \<open>
  C7. A package whose manifest has no item of an html media type is to fail with the
  error of the missing text content. The code does so when no reference of the spine
  names a member of \<open>Object.prototype\<close> (lemma \<open>no_html_items\<close>), and not always
  otherwise, since \<open>manifestItems\<close> is an object created by \<^verbatim>\<open>{}\<close>: in this book the
  manifest lists a cover image of the id \<^verbatim>\<open>__proto__\<close> only, the spine refers to it,
  the lookup gives \<open>Object.prototype\<close>, whose text is \<^verbatim>\<open>[object Object]\<close>, and the
  archive has an entry of that name; its text is extracted and analysed, and the run
  returns a result.
\<close>

theorem no_text_content_inherited_member:
  "list_all (\<lambda>item. \<not> collected item)
     [\<lparr>item_id = Some protoName, item_href = Some (str ''cover.png''),
       item_media_type = Some (str ''image/png'')\<rparr>]
   \<and> chapterHref env [] protoName = Some (str ''[object Object]'')
   \<and> analyzeEpub
       (exampleBrowser (packageDocument
          [\<lparr>item_id = Some protoName, item_href = Some (str ''cover.png''),
            item_media_type = Some (str ''image/png'')\<rparr>] [Some protoName]))
       [(str ''Fantasy'', [str ''magic'', str ''spell''])] []
       (exampleArchive [(''OEBPS/cover.png'', str ''PNG''), (''OEBPS/[object Object]'', chapterOne)])
     = Inr \<lparr>genres = [\<lparr>category = str ''Fantasy'', score = 1, hits = [(str ''spell'', 1)]\<rparr>],
            tags = [],
            allHits = [\<lparr>keyword = str ''spell'', count = Num 1\<rparr>]\<rparr>"
  by code_simp

section \<open>A malformed percent escape\<close>

lemma uriTokens_malformed:
  "s = a @ percent # b \<Longrightarrow> \<not> twoHexDigits b \<Longrightarrow> uriTokens s = None"
proof (induction s arbitrary: a rule: length_induct)
  case (1 s)
  show ?case
  proof (cases a)
    case Nil
    with "1.prems" show ?thesis
      by (auto simp: twoHexDigits_def split: list.splits option.splits)
  next
    case (Cons c a1)
    with "1.prems" have s: "s = c # a1 @ percent # b" by simp
    show ?thesis
    proof (cases "c = percent")
      case False
      have "uriTokens (a1 @ percent # b) = None"
        using "1.IH" [rule_format, of "a1 @ percent # b" a1] "1.prems"(2) s by simp
      with False show ?thesis by (simp add: s)
    next
      case True
      show ?thesis
      proof (cases a1)
        case Nil
        with True show ?thesis
          by (simp add: s hexValue_def split: option.splits list.splits)
      next
        case (Cons h a2)
        show ?thesis
        proof (cases a2)
          case Nil
          with True Cons show ?thesis
            by (simp add: s hexValue_def split: option.splits list.splits)
        next
          case (Cons l a3)
          have "uriTokens (a3 @ percent # b) = None"
            using "1.IH" [rule_format, of "a3 @ percent # b" a3] "1.prems"(2) s
              \<open>a1 = h # a2\<close> Cons
            by simp
          with True \<open>a1 = h # a2\<close> Cons show ?thesis
            by (simp add: s split: option.splits)
        qed
      qed
    qed
  qed
qed

lemma decodeURIComponent_malformed:
  "s = a @ percent # b \<Longrightarrow> \<not> twoHexDigits b \<Longrightarrow> decodeURIComponent s = None"
  by (simp add: decodeURIComponent_def uriTokens_malformed)

text \<open>
  C10. When the container and the OPF file are found, the loop reaches a spine reference
  without an exception, the reference has a manifest entry, and the path its href
  resolves to holds a percent sign that is not followed by two hexadecimal digits, then
  the run ends with the \<open>URIError\<close> of \<open>decodeURIComponent\<close>, which is none of the
  errors that \<open>analyzeEpub\<close> throws itself; the reference is not skipped.
\<close>

theorem malformed_percent_escape:
  assumes "locateOpf env z = Inr opfPath" and "z opfPath = Some opfXmlStr"
    and "spine_idrefs (parseXml env opfXmlStr) = pre @ Some idref # post"
    and "extractSpine env z opfPath
           (buildManifest (manifest_items (parseXml env opfXmlStr)) []) pre ([], {})
         = Inr st"
    and "idref \<noteq> []"
    and "map_of (buildManifest (manifest_items (parseXml env opfXmlStr)) []) idref = Some href"
    and "href \<noteq> []"
    and "urlPathname env opfPath href = Some pathname"
    and "takeWhile (\<lambda>c. c \<noteq> hash) (drop 1 pathname) = a @ percent # b"
    and "\<not> twoHexDigits b"
  shows "analyzeEpub env G T z = Inl URIError \<and> \<not> documentedError URIError"
proof -
  let ?M = "buildManifest (manifest_items (parseXml env opfXmlStr)) []"
  have "chapterFilePath env opfPath href = Inl URIError"
    using assms(8-10) by (simp add: chapterFilePath_def decodeURIComponent_malformed)
  moreover have "chapterHref env ?M idref = Some href"
    using assms(6,7) by (simp add: chapterHref_def objGet_def)
  ultimately have "resolved env opfPath ?M (Some idref) = Some (Inl URIError)"
    using assms(5) by (simp add: resolved_def truthy_def)
  then have "extractSpine env z opfPath ?M (Some idref # post) st = Inl URIError"
    by (cases st) (simp add: extractSpine_step)
  with assms(4) have "extractSpine env z opfPath ?M (pre @ Some idref # post) ([], {}) = Inl URIError"
    by (simp add: extractSpine_append)
  then have "extractText env z opfPath ?M (spine_idrefs (parseXml env opfXmlStr)) = Inl URIError"
    by (simp add: extractText_def assms(3))
  then have "analyzeEpub env G T z = Inl URIError"
    by (simp add: analyzeEpub_def Let_def assms(1,2))
  then show ?thesis by (simp add: documentedError_def)
qed

text \<open>
  Such a book exists: the one chapter of this book has the href \<open>ch%.xhtml\<close>, and an
  archive entry of that very name.
\<close>

theorem malformed_percent_escape_witness:
  "analyzeEpub
     (exampleBrowser (packageDocument [xhtmlItem ''c1'' ''ch%.xhtml''] [Some (str ''c1'')]))
     [(str ''Fantasy'', [str ''magic'', str ''spell''])] []
     (exampleArchive [(''OEBPS/ch%.xhtml'', chapterOne)])
   = Inl URIError"
proof -
  let ?env = "exampleBrowser (packageDocument [xhtmlItem ''c1'' ''ch%.xhtml''] [Some (str ''c1'')])"
  let ?z = "exampleArchive [(''OEBPS/ch%.xhtml'', chapterOne)]"
  let ?xml = "str ''<package>...</package>''"
  let ?M = "buildManifest (manifest_items (parseXml ?env ?xml)) []"
  have "analyzeEpub ?env [(str ''Fantasy'', [str ''magic'', str ''spell''])] [] ?z = Inl URIError
      \<and> \<not> documentedError URIError"
  proof (rule malformed_percent_escape)
    show "locateOpf ?env ?z = Inr (str ''OEBPS/content.opf'')" by code_simp
    show "?z (str ''OEBPS/content.opf'') = Some ?xml" by code_simp
    show "spine_idrefs (parseXml ?env ?xml) = [] @ Some (str ''c1'') # []" by code_simp
    show "extractSpine ?env ?z (str ''OEBPS/content.opf'') ?M [] ([], {}) = Inr ([], {})" by simp
    show "str ''c1'' \<noteq> []" by code_simp
    show "map_of ?M (str ''c1'') = Some (str ''ch%.xhtml'')" by code_simp
    show "str ''ch%.xhtml'' \<noteq> []" by code_simp
    show "urlPathname ?env (str ''OEBPS/content.opf'') (str ''ch%.xhtml'') = Some (str ''/OEBPS/ch%.xhtml'')"
      by code_simp
    show "takeWhile (\<lambda>c. c \<noteq> hash) (drop 1 (str ''/OEBPS/ch%.xhtml''))
        = str ''OEBPS/ch'' @ percent # str ''.xhtml''"
      by code_simp
    show "\<not> twoHexDigits (str ''.xhtml'')" by code_simp
  qed
  then show ?thesis by simp
qed

end
